theory Spec2Isabelle
  imports Complex_Main "HOL-Library.AList" "HOL-Library.Char_ord"
    "HOL-Library.List_Lexorder" "HOL-Library.Log_Nat" "HOL-Library.Product_Lexorder"
begin

section \<open>Decentralisation metrics over validator stake snapshots\<close>

text \<open>
  The development follows the Python sources \<^verbatim>\<open>hist/analyze.py\<close>,
  \<^verbatim>\<open>hist/nakamoto_analysis.py\<close> and \<^verbatim>\<open>stakes.py\<close>.
  Arrays of \<^verbatim>\<open>float64\<close> are lists of reals: every arithmetic operation is taken
  exactly, so rounding, overflow to infinity and the difference between numpy's pairwise
  summation and a running sum are not part of the model. A division by zero, which numpy
  answers with \<^verbatim>\<open>nan\<close> or \<^verbatim>\<open>inf\<close>, is the value \<open>None\<close>.
\<close>

subsection \<open>The numpy operations used by the metrics\<close>

text \<open>\<^verbatim>\<open>np.cumsum\<close>: the running sums of an array, from left to right.\<close>

fun cumsum_from :: "real \<Rightarrow> real list \<Rightarrow> real list" where
  "cumsum_from acc [] = []"
| "cumsum_from acc (x # xs) = (acc + x) # cumsum_from (acc + x) xs"

definition np_cumsum :: "real list \<Rightarrow> real list" where
  "np_cumsum xs = cumsum_from 0 xs"

text \<open>
  \<^verbatim>\<open>np.searchsorted(a, v, side='left')\<close> is numpy's binary search: the interval
  \<open>[lo, hi)\<close> is halved until it is empty, going right when the middle element is
  less than the key.
\<close>

function binsearch_left :: "real list \<Rightarrow> real \<Rightarrow> nat \<Rightarrow> nat \<Rightarrow> nat" where
  "binsearch_left a key lo hi =
     (if lo < hi then
        (let mid = lo + (hi - lo) div 2
         in if a ! mid < key then binsearch_left a key (mid + 1) hi
            else binsearch_left a key lo mid)
      else lo)"
  by pat_completeness auto
termination
  by (relation "measure (\<lambda>(a, key, lo, hi). hi - lo)") auto

declare binsearch_left.simps [simp del]

definition searchsorted_left :: "real list \<Rightarrow> real \<Rightarrow> nat" where
  "searchsorted_left a v = binsearch_left a v 0 (length a)"

subsection \<open>The Nakamoto coefficient (\<^verbatim>\<open>hist/analyze.py\<close>)\<close>

text \<open>
  \<^verbatim>\<open>
  def nakamoto(weights, threshold=0.30):
      if len(weights) == 0:
          return 0
      weights = np.array(weights, dtype=np.float64)
      total = np.sum(weights)
      sorted_weights = np.sort(weights)[::-1]
      cumsum = np.cumsum(sorted_weights)
      target = total * threshold
      idx = np.searchsorted(cumsum, target, side='left')
      return int(idx + 1)
  \<close>
\<close>

definition nakamoto :: "real list \<Rightarrow> real \<Rightarrow> nat" where
  "nakamoto weights threshold =
     (if length weights = 0 then 0
      else
        let total = sum_list weights;
            sorted_weights = rev (sort weights);
            cumsum = np_cumsum sorted_weights;
            target = total * threshold;
            idx = searchsorted_left cumsum target
        in idx + 1)"

text \<open>The spec's words: the sum of the \<open>k\<close> largest weights.\<close>

definition sum_largest :: "real list \<Rightarrow> nat \<Rightarrow> real" where
  "sum_largest weights k = sum_list (take k (rev (sort weights)))"

text \<open>The number of entries with a nonzero weight.\<close>

definition count_nonzero :: "real list \<Rightarrow> nat" where
  "count_nonzero weights = length (filter (\<lambda>w. w \<noteq> 0) weights)"


definition round_half_even :: "real \<Rightarrow> int" where
  "round_half_even x =
     (let f = \<lfloor>x\<rfloor>; r = x - of_int f
      in if r < 1 / 2 then f else if 1 / 2 < r then f + 1 else if even f then f else f + 1)"

definition binade :: "real \<Rightarrow> int" where
  "binade x = (if 1 \<le> x then bitlen \<lfloor>x\<rfloor> - 1 else - bitlen (\<lceil>1 / x\<rceil> - 1))"

definition f64 :: "real \<Rightarrow> real" where
  "f64 x =
     (if x = 0 then 0
      else
        let e = max (binade \<bar>x\<bar>) (- 1022);
            ulp = 2 powi (e - 52)
        in sgn x * of_int (round_half_even (\<bar>x\<bar> / ulp)) * ulp)"

definition fadd :: "(real \<Rightarrow> real) \<Rightarrow> real \<Rightarrow> real \<Rightarrow> real" where
  "fadd fl a b = fl (a + b)"

fun blocks8 :: "nat \<Rightarrow> 'a list \<Rightarrow> 'a list list" where
  "blocks8 0 xs = []"
| "blocks8 (Suc k) xs = take 8 xs # blocks8 k (drop 8 xs)"

definition tree8 :: "(real \<Rightarrow> real) \<Rightarrow> real list \<Rightarrow> real" where
  "tree8 fl r =
     fadd fl (fadd fl (fadd fl (r ! 0) (r ! 1)) (fadd fl (r ! 2) (r ! 3)))
             (fadd fl (fadd fl (r ! 4) (r ! 5)) (fadd fl (r ! 6) (r ! 7)))"

function pairwise_sum :: "(real \<Rightarrow> real) \<Rightarrow> real list \<Rightarrow> real" where
  "pairwise_sum fl a =
     (let n = length a
      in if n < 8 then foldl (fadd fl) 0 a
         else if n \<le> 128 then
           (let r = foldl (\<lambda>r b. map2 (fadd fl) r b) (take 8 a)
                      (blocks8 (n div 8 - 1) (drop 8 a));
                res = tree8 fl r
            in foldl (fadd fl) res (drop (n - n mod 8) a))
         else
           (let n2 = n div 2 - (n div 2) mod 8
            in fadd fl (pairwise_sum fl (take n2 a)) (pairwise_sum fl (drop n2 a))))"
  by pat_completeness auto
termination
  by (relation "measure (\<lambda>(fl, a). length a)") (auto simp: Let_def)

declare pairwise_sum.simps [simp del]

fun cumsum_fl_from :: "(real \<Rightarrow> real) \<Rightarrow> real \<Rightarrow> real list \<Rightarrow> real list" where
  "cumsum_fl_from fl acc [] = []"
| "cumsum_fl_from fl acc (x # xs) = fadd fl acc x # cumsum_fl_from fl (fadd fl acc x) xs"

fun cumsum_fl :: "(real \<Rightarrow> real) \<Rightarrow> real list \<Rightarrow> real list" where
  "cumsum_fl fl [] = []"
| "cumsum_fl fl (x # xs) = x # cumsum_fl_from fl x xs"

definition nakamoto_fl :: "(real \<Rightarrow> real) \<Rightarrow> real list \<Rightarrow> real \<Rightarrow> nat" where
  "nakamoto_fl fl weights threshold =
     (if length weights = 0 then 0
      else
        let weights = map fl weights;
            total = pairwise_sum fl weights;
            sorted_weights = rev (sort weights);
            cumsum = cumsum_fl fl sorted_weights;
            target = fl (total * threshold);
            idx = searchsorted_left cumsum target
        in idx + 1)"

definition nakamoto_f64 :: "real list \<Rightarrow> real \<Rightarrow> nat" where
  "nakamoto_f64 = nakamoto_fl f64"


definition scaled :: "real \<Rightarrow> real \<Rightarrow> bool" where
  "scaled c x \<longleftrightarrow> (\<exists>s::nat. x = real s * c)"

definition exact_below :: "(real \<Rightarrow> real) \<Rightarrow> real \<Rightarrow> real \<Rightarrow> bool" where
  "exact_below fl c B \<longleftrightarrow> (\<forall>x. scaled c x \<and> x < B \<longrightarrow> fl x = x)"

subsection \<open>The GINI coefficient (\<^verbatim>\<open>hist/analyze.py\<close>, \<^verbatim>\<open>stakes.py\<close>)\<close>

text \<open>
  A \<^verbatim>\<open>float64\<close> division: a zero divisor gives \<^verbatim>\<open>nan\<close> or \<^verbatim>\<open>inf\<close> (with a
  warning, not an exception), here \<open>None\<close>.
\<close>

definition fdiv :: "real \<Rightarrow> real \<Rightarrow> real option" where
  "fdiv x y = (if y = 0 then None else Some (x / y))"

text \<open>\<^verbatim>\<open>np.mean\<close>: the sum divided by the number of elements; \<^verbatim>\<open>nan\<close> on an empty array.\<close>

definition np_mean :: "real list \<Rightarrow> real option" where
  "np_mean a = fdiv (sum_list a) (real (length a))"

text \<open>\<^verbatim>\<open>np.subtract.outer(a, b)\<close>: the matrix of all differences, row by row.\<close>

definition subtract_outer :: "real list \<Rightarrow> real list \<Rightarrow> real list" where
  "subtract_outer a b = concat (map (\<lambda>x. map (\<lambda>y. x - y) b) a)"

text \<open>
  The two lines shared by both versions:
  \<^verbatim>\<open>
      mad = np.abs(np.subtract.outer(a, a)).mean()
      return mad / np.mean(a) * 0.5
  \<close>
\<close>

definition gini_formula :: "real list \<Rightarrow> real option" where
  "gini_formula a =
     (case np_mean (map abs (subtract_outer a a)) of
        None \<Rightarrow> None
      | Some mad \<Rightarrow>
          (case np_mean a of
             None \<Rightarrow> None
           | Some m \<Rightarrow> map_option (\<lambda>q. q * 0.5) (fdiv mad m)))"

text \<open>
  \<^verbatim>\<open>analyze.gini\<close> answers an empty array first:
  \<^verbatim>\<open>
      if len(a) == 0:
          return 0.0
  \<close>
\<close>

definition gini :: "real list \<Rightarrow> real option" where
  "gini a = (if length a = 0 then Some 0.0 else gini_formula a)"

text \<open>\<^verbatim>\<open>stakes.gini\<close> has the two lines only.\<close>

definition stakes_gini :: "real list \<Rightarrow> real option" where
  "stakes_gini a = gini_formula a"

text \<open>
  The spec's words: the mean of \<open>\<bar>a\<^sub>i - a\<^sub>j\<bar>\<close> over all ordered pairs of indices,
  self-pairs included, and the arithmetic mean.
\<close>

definition mean_abs_diff :: "real list \<Rightarrow> real" where
  "mean_abs_diff a =
     (\<Sum>i<length a. \<Sum>j<length a. \<bar>a ! i - a ! j\<bar>) / real (length a * length a)"

definition arith_mean :: "real list \<Rightarrow> real" where
  "arith_mean a = (\<Sum>i<length a. a ! i) / real (length a)"


subsection \<open>Validator records and entities\<close>

text \<open>
  The Python exceptions that the modelled functions can raise: a missing dictionary key
  (with the key's name), an index out of range and \<^verbatim>\<open>ValueError\<close> (an unparsable
  date, a negative seed).
\<close>

datatype py_error = KeyError string | IndexError | ValueError

text \<open>
  A validator is a JSON object. A key may be absent, so every field is optional; the
  \<^verbatim>\<open>id\<close> is a string or a list of strings. Weights are Python integers. The nested
  \<^verbatim>\<open>geo\<close> object is read only through \<^verbatim>\<open>geo.get(x, {}).get(y)\<close>, so it is
  flattened to the four leaves that are read.
\<close>

datatype id_field = IdStr string | IdList "string list"

record geo =
  country_code :: "string option"
  asnum_name :: "string option"
  city_name :: "string option"
  city_region :: "string option"

record validator =
  v_id :: "id_field option"
  v_rewardAddresses :: "string list option"
  v_weight :: "int option"
  v_delegatorWeight :: "int option"
  v_delegatedWeight :: "int option"
  v_totalWeight :: "int option"
  v_geo :: "geo option"
  v_version :: "string option"

text \<open>The dictionary that \<^verbatim>\<open>by_address\<close> builds for each group.\<close>

record entity =
  e_id :: "string set"
  e_rewardAddresses :: "string set"
  e_weight :: int
  e_delegatorWeight :: int
  e_totalWeight :: int

definition fresh_entity :: entity where
  "fresh_entity =
     \<lparr>e_id = {}, e_rewardAddresses = {}, e_weight = 0, e_delegatorWeight = 0,
      e_totalWeight = 0\<rparr>"

text \<open>\<^verbatim>\<open>vid if isinstance(vid, list) else [vid]\<close>\<close>

definition id_list :: "id_field \<Rightarrow> string list" where
  "id_list vid = (case vid of IdList xs \<Rightarrow> xs | IdStr s \<Rightarrow> [s])"

text \<open>\<^verbatim>\<open>v.get('delegatorWeight', v.get('delegatedWeight', 0))\<close>\<close>

definition get_delegated :: "validator \<Rightarrow> int" where
  "get_delegated v =
     (case v_delegatorWeight v of
        Some d \<Rightarrow> d
      | None \<Rightarrow> (case v_delegatedWeight v of Some d \<Rightarrow> d | None \<Rightarrow> 0))"

subsection \<open>Grouping by reward address (\<^verbatim>\<open>hist/analyze.py\<close>)\<close>

text \<open>
  \<^verbatim>\<open>
  def by_address(validators):
      groups = {}
      for v in validators:
          key = frozenset(v['rewardAddresses'])
          if key not in groups:
              groups[key] = {'id': set(), 'rewardAddresses': set(), 'weight': 0,
                             'delegatorWeight': 0, 'totalWeight': 0}
          g = groups[key]
          vid = v['id']
          g['id'].update(vid if isinstance(vid, list) else [vid])
          g['rewardAddresses'].update(v['rewardAddresses'])
          g['weight'] += v['weight']
          g['delegatorWeight'] += v.get('delegatorWeight', v.get('delegatedWeight', 0))
          g['totalWeight'] += v['totalWeight']
      return list(groups.values())
  \<close>
  \<open>groups\<close> is a local dictionary in insertion order: an association list, updated
  in place for a key that is present and extended at the end for a new one. A subscript
  on a missing key raises \<^verbatim>\<open>KeyError\<close>, in the order in which the body reads the
  keys; the dictionary is local, so nothing of it survives the exception.
\<close>

definition by_address_step ::
  "(string set \<times> entity) list \<Rightarrow> validator \<Rightarrow> py_error + (string set \<times> entity) list" where
  "by_address_step groups v =
     (case v_rewardAddresses v of
        None \<Rightarrow> Inl (KeyError ''rewardAddresses'')
      | Some addrs \<Rightarrow>
          (let key = set addrs;
               g = (case map_of groups key of None \<Rightarrow> fresh_entity | Some g \<Rightarrow> g)
           in case v_id v of
                None \<Rightarrow> Inl (KeyError ''id'')
              | Some vid \<Rightarrow>
                  (case v_weight v of
                     None \<Rightarrow> Inl (KeyError ''weight'')
                   | Some w \<Rightarrow>
                       (case v_totalWeight v of
                          None \<Rightarrow> Inl (KeyError ''totalWeight'')
                        | Some t \<Rightarrow>
                            Inr (AList.update key
                              (g\<lparr>e_id := e_id g \<union> set (id_list vid),
                                 e_rewardAddresses := e_rewardAddresses g \<union> set addrs,
                                 e_weight := e_weight g + w,
                                 e_delegatorWeight := e_delegatorWeight g + get_delegated v,
                                 e_totalWeight := e_totalWeight g + t\<rparr>)
                              groups)))))"

fun by_address_loop ::
  "(string set \<times> entity) list \<Rightarrow> validator list \<Rightarrow> py_error + (string set \<times> entity) list" where
  "by_address_loop groups [] = Inr groups"
| "by_address_loop groups (v # vs) =
     (case by_address_step groups v of
        Inl err \<Rightarrow> Inl err
      | Inr groups' \<Rightarrow> by_address_loop groups' vs)"

definition by_address :: "validator list \<Rightarrow> py_error + entity list" where
  "by_address validators =
     (case by_address_loop [] validators of
        Inl err \<Rightarrow> Inl err
      | Inr groups \<Rightarrow> Inr (map snd groups))"


subsection \<open>Grouping with metadata (\<^verbatim>\<open>hist/nakamoto_analysis.py\<close>)\<close>

text \<open>
  A \<^verbatim>\<open>collections.Counter\<close>: \<^verbatim>\<open>c[k] += 1\<close> reads 0 for a missing key.
\<close>

type_synonym counter = "(string \<times> nat) list"

definition counter_incr :: "counter \<Rightarrow> string \<Rightarrow> counter" where
  "counter_incr c k = AList.update k ((case map_of c k of None \<Rightarrow> 0 | Some n \<Rightarrow> n) + 1) c"

record entity_ext = entity +
  x_validators :: "validator list"
  x_countries :: counter
  x_asns :: counter
  x_cities :: counter
  x_versions :: counter

definition fresh_entity_ext :: entity_ext where
  "fresh_entity_ext =
     \<lparr>e_id = {}, e_rewardAddresses = {}, e_weight = 0, e_delegatorWeight = 0,
      e_totalWeight = 0, x_validators = [], x_countries = [], x_asns = [], x_cities = [],
      x_versions = []\<rparr>"

text \<open>
  \<^verbatim>\<open>str(vid)\<close> of a list of strings, for strings that \<^verbatim>\<open>repr\<close> prints between
  single quotes without escapes (node identifiers are alphanumeric).
\<close>

definition py_str_list :: "string list \<Rightarrow> string" where
  "py_str_list xs =
     ''['' @ concat (map (\<lambda>(i, s). (if i = 0 then [] else '', '') @ [CHR 0x27] @ s @ [CHR 0x27])
                       (enumerate 0 xs)) @ '']''"

definition id_str :: "id_field \<Rightarrow> string" where
  "id_str vid = (case vid of IdStr s \<Rightarrow> s | IdList xs \<Rightarrow> py_str_list xs)"

text \<open>\<^verbatim>\<open>d.get(key, default)\<close> on an optional field, and Python's truth value of a string.\<close>

definition get_or :: "'a \<Rightarrow> 'a option \<Rightarrow> 'a" where
  "get_or d x = (case x of None \<Rightarrow> d | Some y \<Rightarrow> y)"

definition truthy :: "string option \<Rightarrow> bool" where
  "truthy x = (case x of None \<Rightarrow> False | Some s \<Rightarrow> s \<noteq> [])"

definition empty_geo :: geo where
  "empty_geo = \<lparr>country_code = None, asnum_name = None, city_name = None, city_region = None\<rparr>"

text \<open>
  \<^verbatim>\<open>
          geo = v.get('geo', {})
          country = geo.get('country', {})
          if country.get('code'):
              g['countries'][country['code']] += 1
          asnum = geo.get('asnum', {})
          if asnum.get('name'):
              g['asns'][asnum['name']] += 1
          city = geo.get('city', {})
          if city.get('name'):
              g['cities'][f"{city['name']}, {city.get('region', '')}"] += 1
          if v.get('version'):
              g['versions'][v['version']] += 1
  \<close>
\<close>

definition count_geo :: "entity_ext \<Rightarrow> validator \<Rightarrow> entity_ext" where
  "count_geo g v =
     (let geo = get_or empty_geo (v_geo v);
          g1 = (if truthy (country_code geo)
                then g\<lparr>x_countries := counter_incr (x_countries g) (get_or [] (country_code geo))\<rparr>
                else g);
          g2 = (if truthy (asnum_name geo)
                then g1\<lparr>x_asns := counter_incr (x_asns g1) (get_or [] (asnum_name geo))\<rparr>
                else g1);
          g3 = (if truthy (city_name geo)
                then g2\<lparr>x_cities := counter_incr (x_cities g2)
                         (get_or [] (city_name geo) @ '', '' @ get_or [] (city_region geo))\<rparr>
                else g2)
      in if truthy (v_version v)
         then g3\<lparr>x_versions := counter_incr (x_versions g3) (get_or [] (v_version v))\<rparr>
         else g3)"

text \<open>
  \<^verbatim>\<open>
  def by_address_ext(validators):
      groups = {}
      for v in validators:
          key = frozenset(v.get('rewardAddresses', []))
          if not key:
              continue
          if key not in groups:
              groups[key] = {... all fields empty or 0 ...}
          g = groups[key]
          vid = v.get('id', '')
          g['id'].add(vid if isinstance(vid, str) else str(vid))
          g['rewardAddresses'].update(v.get('rewardAddresses', []))
          g['weight'] += v.get('weight', 0)
          g['delegatorWeight'] += v.get('delegatorWeight', v.get('delegatedWeight', 0))
          g['totalWeight'] += v.get('totalWeight', 0)
          g['validators'].append(v)
          ... the metadata counters ...
      return list(groups.values())
  \<close>
  Every read has a default, so this version raises nothing.
\<close>

definition by_address_ext_step ::
  "(string set \<times> entity_ext) list \<Rightarrow> validator \<Rightarrow> (string set \<times> entity_ext) list" where
  "by_address_ext_step groups v =
     (let key = set (get_or [] (v_rewardAddresses v))
      in if key = {} then groups
         else
           let g = (case map_of groups key of None \<Rightarrow> fresh_entity_ext | Some g \<Rightarrow> g);
               vid = get_or (IdStr []) (v_id v)
           in AList.update key
                (count_geo
                   (g\<lparr>e_id := insert (id_str vid) (e_id g),
                      e_rewardAddresses := e_rewardAddresses g \<union> set (get_or [] (v_rewardAddresses v)),
                      e_weight := e_weight g + get_or 0 (v_weight v),
                      e_delegatorWeight := e_delegatorWeight g + get_delegated v,
                      e_totalWeight := e_totalWeight g + get_or 0 (v_totalWeight v),
                      x_validators := x_validators g @ [v]\<rparr>)
                   v)
                groups)"

definition by_address_ext :: "validator list \<Rightarrow> entity_ext list" where
  "by_address_ext validators = map snd (foldl by_address_ext_step [] validators)"


subsection \<open>Grouping in \<^verbatim>\<open>stakes.py\<close>: a default argument that persists\<close>

text \<open>
  \<^verbatim>\<open>
  def by_address(validators, groups={}):
      for k, v in map(lambda v: (frozenset(v['rewardAddresses']), v), validators):
          g = groups.get(k, {'id': set(), 'rewardAddresses': set(), 'weight': 0,
                             'delegatedWeight': 0, 'totalWeight': 0})
          g['id'].update(v['id'] if type(v['id']) == list else [v['id']])
          g['rewardAddresses'].update(v['rewardAddresses'])
          g['weight'] += v['weight']
          g['delegatedWeight'] += v['delegatedWeight']
          g['totalWeight'] += v['totalWeight']
          groups[k] = g
      return groups.values()
  \<close>
  The default \<^verbatim>\<open>{}\<close> is one object, created when the function is defined and shared by
  every call that passes no \<open>groups\<close>. The model passes the content of that object in
  and returns its content after the call, next to the result. The result is the content
  of the view \<^verbatim>\<open>groups.values()\<close> when the call returns, which is when \<^verbatim>\<open>load\<close>
  reads it.
\<close>

record sgroup =
  s_id :: "string set"
  s_rewardAddresses :: "string set"
  s_weight :: int
  s_delegatedWeight :: int
  s_totalWeight :: int

definition fresh_sgroup :: sgroup where
  "fresh_sgroup =
     \<lparr>s_id = {}, s_rewardAddresses = {}, s_weight = 0, s_delegatedWeight = 0,
      s_totalWeight = 0\<rparr>"

text \<open>
  A group that is already stored in the dictionary is the same object as \<open>g\<close>, so each
  update of \<open>g\<close> is visible in the dictionary at once, also when a later subscript
  raises; a group made by the default of \<^verbatim>\<open>groups.get\<close> is stored by the last line only.
\<close>

definition mutate :: "bool \<Rightarrow> string set \<Rightarrow> sgroup \<Rightarrow> (string set \<times> sgroup) list \<Rightarrow> (string set \<times> sgroup) list" where
  "mutate stored k g groups = (if stored then AList.update k g groups else groups)"

definition stakes_step ::
  "(string set \<times> sgroup) list \<Rightarrow> validator \<Rightarrow> py_error option \<times> (string set \<times> sgroup) list" where
  "stakes_step groups v =
     (case v_rewardAddresses v of
        None \<Rightarrow> (Some (KeyError ''rewardAddresses''), groups)
      | Some addrs \<Rightarrow>
          (let k = set addrs;
               stored = (map_of groups k \<noteq> None);
               g = (case map_of groups k of None \<Rightarrow> fresh_sgroup | Some g \<Rightarrow> g)
           in case v_id v of
                None \<Rightarrow> (Some (KeyError ''id''), groups)
              | Some vid \<Rightarrow>
                  (let g1 = g\<lparr>s_id := s_id g \<union> set (id_list vid),
                               s_rewardAddresses := s_rewardAddresses g \<union> set addrs\<rparr>
                   in case v_weight v of
                        None \<Rightarrow> (Some (KeyError ''weight''), mutate stored k g1 groups)
                      | Some w \<Rightarrow>
                          (let g2 = g1\<lparr>s_weight := s_weight g1 + w\<rparr>
                           in case v_delegatedWeight v of
                                None \<Rightarrow>
                                  (Some (KeyError ''delegatedWeight''), mutate stored k g2 groups)
                              | Some d \<Rightarrow>
                                  (let g3 = g2\<lparr>s_delegatedWeight := s_delegatedWeight g2 + d\<rparr>
                                   in case v_totalWeight v of
                                        None \<Rightarrow>
                                          (Some (KeyError ''totalWeight''),
                                           mutate stored k g3 groups)
                                      | Some t \<Rightarrow>
                                          (None,
                                           AList.update k
                                             (g3\<lparr>s_totalWeight := s_totalWeight g3 + t\<rparr>)
                                             groups))))))"

text \<open>The call: the result (or the exception) and the content of \<open>groups\<close> afterwards.\<close>

fun stakes_by_address ::
  "validator list \<Rightarrow> (string set \<times> sgroup) list \<Rightarrow>
     (py_error + sgroup list) \<times> (string set \<times> sgroup) list" where
  "stakes_by_address [] groups = (Inr (map snd groups), groups)"
| "stakes_by_address (v # vs) groups =
     (case stakes_step groups v of
        (Some err, groups') \<Rightarrow> (Inl err, groups')
      | (None, groups') \<Rightarrow> stakes_by_address vs groups')"


text \<open>
  Two calls in a row that both use the default argument, as \<^verbatim>\<open>load\<close> makes them for two
  files: the second call starts from the dictionary that the first one left.
\<close>

definition stakes_two_calls ::
  "validator list \<Rightarrow> validator list \<Rightarrow> (py_error + sgroup list) \<times> (py_error + sgroup list)" where
  "stakes_two_calls vs1 vs2 =
     (let (r1, groups1) = stakes_by_address vs1 [];
          (r2, groups2) = stakes_by_address vs2 groups1
      in (r1, r2))"

subsection \<open>Vocabulary for the grouping properties\<close>

text \<open>
  The grouping key of a validator (its reward addresses as a set), its total weight and
  its identifiers, each read with the default of \<^verbatim>\<open>dict.get\<close>; the validators of a list
  that share a key; the fields that \<^verbatim>\<open>analyze.by_address\<close> reads by subscript.
\<close>

definition key_of :: "validator \<Rightarrow> string set" where
  "key_of v = set (get_or [] (v_rewardAddresses v))"

definition total_of :: "validator \<Rightarrow> int" where
  "total_of v = get_or 0 (v_totalWeight v)"

definition members :: "('a \<Rightarrow> 'k) \<Rightarrow> 'k \<Rightarrow> 'a list \<Rightarrow> 'a list" where
  "members keyf k xs = filter (\<lambda>x. keyf x = k) xs"

definition has_required_fields :: "validator \<Rightarrow> bool" where
  "has_required_fields v \<longleftrightarrow>
     v_rewardAddresses v \<noteq> None \<and> v_id v \<noteq> None \<and> v_weight v \<noteq> None \<and> v_totalWeight v \<noteq> None"

text \<open>What one round of each loop does to the group of the validator.\<close>

definition absorb :: "entity \<Rightarrow> validator \<Rightarrow> entity" where
  "absorb g v =
     g\<lparr>e_id := e_id g \<union> set (id_list (get_or (IdList []) (v_id v))),
       e_rewardAddresses := e_rewardAddresses g \<union> key_of v,
       e_weight := e_weight g + get_or 0 (v_weight v),
       e_delegatorWeight := e_delegatorWeight g + get_delegated v,
       e_totalWeight := e_totalWeight g + total_of v\<rparr>"

definition absorb_ext :: "entity_ext \<Rightarrow> validator \<Rightarrow> entity_ext" where
  "absorb_ext g v =
     count_geo
       (g\<lparr>e_id := insert (id_str (get_or (IdStr []) (v_id v))) (e_id g),
          e_rewardAddresses := e_rewardAddresses g \<union> key_of v,
          e_weight := e_weight g + get_or 0 (v_weight v),
          e_delegatorWeight := e_delegatorWeight g + get_delegated v,
          e_totalWeight := e_totalWeight g + total_of v,
          x_validators := x_validators g @ [v]\<rparr>)
       v"

text \<open>
  The loop invariant of all the grouping loops: after the items \<open>ps\<close>, the dictionary has
  one entry per key that occurs in \<open>ps\<close>, holding the fold of the items with that key.
\<close>

definition grouped ::
  "('a \<Rightarrow> 'k) \<Rightarrow> ('g \<Rightarrow> 'a \<Rightarrow> 'g) \<Rightarrow> 'g \<Rightarrow> ('k \<times> 'g) list \<Rightarrow> 'a list \<Rightarrow> bool" where
  "grouped keyf ab fresh groups ps \<longleftrightarrow>
     distinct (map fst groups) \<and>
     (\<forall>k. map_of groups k =
        (if k \<in> keyf ` set ps then Some (foldl ab fresh (members keyf k ps)) else None))"

text \<open>The entity that holds a validator: the one whose address set is the validator's key.\<close>

definition entity_of :: "entity list \<Rightarrow> validator \<Rightarrow> entity option" where
  "entity_of es v = find (\<lambda>e. e_rewardAddresses e = key_of v) es"


definition ids_of :: "validator \<Rightarrow> string set" where
  "ids_of v = set (id_list (get_or (IdList []) (v_id v)))"

definition has_address :: "validator \<Rightarrow> bool" where
  "has_address v \<longleftrightarrow> key_of v \<noteq> {}"

text \<open>A record with the four required fields and nothing else, for the examples.\<close>

definition basic_validator :: "string \<Rightarrow> string list \<Rightarrow> int \<Rightarrow> int \<Rightarrow> validator" where
  "basic_validator i addrs w t =
     \<lparr>v_id = Some (IdStr i), v_rewardAddresses = Some addrs, v_weight = Some w,
      v_delegatorWeight = None, v_delegatedWeight = None, v_totalWeight = Some t,
      v_geo = None, v_version = None\<rparr>"


subsection \<open>Quarterly dates (\<^verbatim>\<open>hist/analyze.py\<close>, \<^verbatim>\<open>hist/nakamoto_analysis.py\<close>)\<close>

text \<open>
  \<^verbatim>\<open>datetime.strptime(d, '%Y-%m-%d')\<close> on ASCII strings. The directives stand for the
  regular expressions \<^verbatim>\<open>\d\d\d\d\<close>, \<^verbatim>\<open>1[0-2]|0[1-9]|[1-9]\<close> and
  \<^verbatim>\<open>3[0-1]|[1-2]\d|0[1-9]|[1-9]| [1-9]\<close>; the whole string must be used up, the year
  must be at least 1 and the day must exist in the month. Everything else raises
  \<^verbatim>\<open>ValueError\<close>, here \<open>None\<close>.
\<close>

definition is_digit :: "char \<Rightarrow> bool" where
  "is_digit c \<longleftrightarrow> CHR ''0'' \<le> c \<and> c \<le> CHR ''9''"

definition digit_val :: "char \<Rightarrow> nat" where
  "digit_val c = of_char c - of_char CHR ''0''"

definition int_of_digits :: "string \<Rightarrow> nat" where
  "int_of_digits s = foldl (\<lambda>n c. 10 * n + digit_val c) 0 s"

definition in_range :: "char \<Rightarrow> char \<Rightarrow> char \<Rightarrow> bool" where
  "in_range lo hi c \<longleftrightarrow> lo \<le> c \<and> c \<le> hi"

definition parse_month :: "string \<Rightarrow> nat option" where
  "parse_month s =
     (case s of
        [c] \<Rightarrow> if in_range CHR ''1'' CHR ''9'' c then Some (digit_val c) else None
      | [c1, c2] \<Rightarrow>
          if (c1 = CHR ''1'' \<and> in_range CHR ''0'' CHR ''2'' c2)
             \<or> (c1 = CHR ''0'' \<and> in_range CHR ''1'' CHR ''9'' c2)
          then Some (int_of_digits [c1, c2]) else None
      | _ \<Rightarrow> None)"

definition parse_day :: "string \<Rightarrow> nat option" where
  "parse_day s =
     (case s of
        [c] \<Rightarrow> if in_range CHR ''1'' CHR ''9'' c then Some (digit_val c) else None
      | [c1, c2] \<Rightarrow>
          if (c1 = CHR ''3'' \<and> in_range CHR ''0'' CHR ''1'' c2)
             \<or> (in_range CHR ''1'' CHR ''2'' c1 \<and> is_digit c2)
             \<or> (c1 = CHR ''0'' \<and> in_range CHR ''1'' CHR ''9'' c2)
          then Some (int_of_digits [c1, c2])
          else if c1 = CHR '' '' \<and> in_range CHR ''1'' CHR ''9'' c2 then Some (digit_val c2)
          else None
      | _ \<Rightarrow> None)"

definition is_leap :: "nat \<Rightarrow> bool" where
  "is_leap y \<longleftrightarrow> y mod 4 = 0 \<and> (y mod 100 \<noteq> 0 \<or> y mod 400 = 0)"

definition days_in_month :: "nat \<Rightarrow> nat \<Rightarrow> nat" where
  "days_in_month y m =
     (if m = 2 then (if is_leap y then 29 else 28)
      else if m \<in> {4, 6, 9, 11} then 30 else 31)"

text \<open>
  The month is what stands between the two hyphens and the day is all that follows the
  second one, because neither pattern matches a hyphen.
\<close>

definition strptime_ymd :: "string \<Rightarrow> (nat \<times> nat \<times> nat) option" where
  "strptime_ymd s =
     (if length s < 5 \<or> \<not> list_all is_digit (take 4 s) \<or> s ! 4 \<noteq> CHR ''-'' then None
      else
        let rest = drop 5 s;
            mtok = takeWhile (\<lambda>c. c \<noteq> CHR ''-'') rest;
            after = dropWhile (\<lambda>c. c \<noteq> CHR ''-'') rest
        in case after of
             [] \<Rightarrow> None
           | _ # dtok \<Rightarrow>
               (case (parse_month mtok, parse_day dtok) of
                  (Some m, Some d) \<Rightarrow>
                    (let y = int_of_digits (take 4 s)
                     in if 1 \<le> y \<and> d \<le> days_in_month y m then Some (y, m, d) else None)
                | _ \<Rightarrow> None))"

text \<open>
  \<^verbatim>\<open>
  def get_quarterly_dates(dates):
      quarterly = []
      quarters = {}
      for d in dates:
          dt = datetime.strptime(d, '%Y-%m-%d')
          year = dt.year
          quarter = (dt.month - 1) // 3 + 1
          key = (year, quarter)
          if key not in quarters:
              quarters[key] = []
          quarters[key].append(d)
      for key in sorted(quarters.keys()):
          quarterly.append(quarters[key][-1])
      return quarterly
  \<close>
  Tuples are compared lexicographically, as pairs are here.
\<close>

definition quarter_step ::
  "((nat \<times> nat) \<times> string list) list \<Rightarrow> string \<Rightarrow>
     py_error + ((nat \<times> nat) \<times> string list) list" where
  "quarter_step quarters d =
     (case strptime_ymd d of
        None \<Rightarrow> Inl ValueError
      | Some (year, month, day) \<Rightarrow>
          (let quarter = (month - 1) div 3 + 1;
               key = (year, quarter);
               ds = (case map_of quarters key of None \<Rightarrow> [] | Some ds \<Rightarrow> ds)
           in Inr (AList.update key (ds @ [d]) quarters)))"

fun quarter_loop ::
  "((nat \<times> nat) \<times> string list) list \<Rightarrow> string list \<Rightarrow>
     py_error + ((nat \<times> nat) \<times> string list) list" where
  "quarter_loop quarters [] = Inr quarters"
| "quarter_loop quarters (d # ds) =
     (case quarter_step quarters d of
        Inl err \<Rightarrow> Inl err
      | Inr quarters' \<Rightarrow> quarter_loop quarters' ds)"

text \<open>\<^verbatim>\<open>quarters[key][-1]\<close>, with the two ways in which a subscript can fail.\<close>

definition pick_last ::
  "((nat \<times> nat) \<times> string list) list \<Rightarrow> nat \<times> nat \<Rightarrow> py_error + string" where
  "pick_last quarters key =
     (case map_of quarters key of
        None \<Rightarrow> Inl (KeyError ''quarter'')
      | Some ds \<Rightarrow> (case ds of [] \<Rightarrow> Inl IndexError | _ \<Rightarrow> Inr (last ds)))"

text \<open>The second loop stops at the first exception.\<close>

fun collect :: "(py_error + 'a) list \<Rightarrow> py_error + 'a list" where
  "collect [] = Inr []"
| "collect (r # rs) =
     (case r of
        Inl err \<Rightarrow> Inl err
      | Inr x \<Rightarrow> (case collect rs of Inl err \<Rightarrow> Inl err | Inr xs \<Rightarrow> Inr (x # xs)))"

definition get_quarterly_dates :: "string list \<Rightarrow> py_error + string list" where
  "get_quarterly_dates dates =
     (case quarter_loop [] dates of
        Inl err \<Rightarrow> Inl err
      | Inr quarters \<Rightarrow> collect (map (pick_last quarters) (sort (map fst quarters))))"

text \<open>
  The directory names that both scripts accept,
  \<^verbatim>\<open>re.match(r'^\d{4}-\d{2}-\d{2}$', d)\<close>: ten characters, or eleven when the last one is
  a newline (\<^verbatim>\<open>$\<close> also matches before a final newline).
\<close>

definition date_shape :: "string \<Rightarrow> bool" where
  "date_shape s \<longleftrightarrow>
     length s = 10 \<and> list_all is_digit (take 4 s) \<and> s ! 4 = CHR ''-''
     \<and> list_all is_digit (take 2 (drop 5 s)) \<and> s ! 7 = CHR ''-''
     \<and> list_all is_digit (drop 8 s)"

definition date_name :: "string \<Rightarrow> bool" where
  "date_name s \<longleftrightarrow>
     date_shape s \<or> (length s = 11 \<and> s ! 10 = CHR 0x0A \<and> date_shape (take 10 s))"

text \<open>
  \<^verbatim>\<open>analyze.get_available_dates\<close> returns the sorted matching names of a directory
  listing. \<^verbatim>\<open>nakamoto_analysis.get_quarterly_dates\<close> takes no argument: it sorts the
  listing, keeps the matching names that have a \<^verbatim>\<open>validators-ext.json\<close> and runs the
  same two loops on them.
\<close>

definition get_available_dates :: "string list \<Rightarrow> string list" where
  "get_available_dates listing = sort (filter date_name listing)"

definition nakamoto_get_quarterly_dates ::
  "string list \<Rightarrow> (string \<Rightarrow> bool) \<Rightarrow> py_error + string list" where
  "nakamoto_get_quarterly_dates listing has_ext =
     get_quarterly_dates (filter (\<lambda>d. date_name d \<and> has_ext d) (sort listing))"

text \<open>
  The calendar date and the (year, quarter) of a date string, and the spec's words for
  the selection: for each quarter that occurs, in ascending order, the greatest date
  string of that quarter.
\<close>

definition date_of :: "string \<Rightarrow> nat \<times> nat \<times> nat" where
  "date_of d = (case strptime_ymd d of None \<Rightarrow> (0, 0, 0) | Some t \<Rightarrow> t)"

definition quarter_of :: "string \<Rightarrow> nat \<times> nat" where
  "quarter_of d = (case date_of d of (y, m, _) \<Rightarrow> (y, (m - 1) div 3 + 1))"

definition latest_per_quarter :: "string list \<Rightarrow> string list" where
  "latest_per_quarter dates =
     map (\<lambda>q. Max {d \<in> set dates. quarter_of d = q})
         (sorted_list_of_set (quarter_of ` set dates))"

text \<open>Appending one element, the round of the first loop.\<close>

definition snoc :: "'a list \<Rightarrow> 'a \<Rightarrow> 'a list" where
  "snoc xs x = xs @ [x]"


subsection \<open>The seeded reference distributions (\<^verbatim>\<open>stakes.py\<close>)\<close>

text \<open>
  Both generators start with
  \<^verbatim>\<open>random = prng(seed=args.seed if args.seed else None)\<close>,
  where \<^verbatim>\<open>args.seed\<close> is the integer of the option \<^verbatim>\<open>--seed\<close> (default 1) and
  \<^verbatim>\<open>prng\<close> is \<^verbatim>\<open>numpy.random.default_rng\<close>. The truth value of an integer is
  whether it is nonzero.
\<close>

definition seed_argument :: "int \<Rightarrow> int option" where
  "seed_argument seed = (if seed \<noteq> 0 then Some seed else None)"

text \<open>
  \<^verbatim>\<open>default_rng(seed)\<close>: with \<^verbatim>\<open>None\<close> the generator is seeded with fresh entropy
  of the operating system, which is an input of the run; a negative seed raises
  \<^verbatim>\<open>ValueError\<close>. The generator is identified with the number that seeds it, and
  \<open>uniform random n\<close>, a parameter of the model, stands for the \<open>n\<close> draws of
  \<^verbatim>\<open>random.uniform(size=n)\<close>.
\<close>

definition default_rng :: "int option \<Rightarrow> nat \<Rightarrow> py_error + nat" where
  "default_rng seed entropy =
     (case seed of
        None \<Rightarrow> Inr entropy
      | Some s \<Rightarrow> if s < 0 then Inl ValueError else Inr (nat s))"

text \<open>
  Arrays of the generators: \<open>None\<close> is an array that holds a \<^verbatim>\<open>nan\<close> or an
  \<^verbatim>\<open>inf\<close>, which every operation below hands on. \<^verbatim>\<open>np.max\<close> of an empty array
  raises \<^verbatim>\<open>ValueError\<close>; dividing an empty array by zero gives the empty array.
\<close>

definition np_max :: "real list option \<Rightarrow> py_error + real option" where
  "np_max a =
     (case a of
        None \<Rightarrow> Inr None
      | Some xs \<Rightarrow> if xs = [] then Inl ValueError else Inr (Some (Max (set xs))))"

definition np_sum :: "real list option \<Rightarrow> real option" where
  "np_sum a = map_option sum_list a"

definition arr_div :: "real list option \<Rightarrow> real option \<Rightarrow> real list option" where
  "arr_div a d =
     (case (a, d) of
        (Some xs, Some y) \<Rightarrow> if y = 0 \<and> xs \<noteq> [] then None else Some (map (\<lambda>x. x / y) xs)
      | _ \<Rightarrow> None)"

definition arr_mul :: "real list option \<Rightarrow> real option \<Rightarrow> real list option" where
  "arr_mul a d =
     (case (a, d) of
        (Some xs, Some y) \<Rightarrow> Some (map (\<lambda>x. x * y) xs)
      | _ \<Rightarrow> None)"

text \<open>
  The dictionary that each generator returns, and its last lines, which both share:
  \<^verbatim>\<open>
      'pdf': x,
      'pdf_normed': x/np.sum(x)*np.sum(a),
      'cdf_normed': cum_a/np.max(cum_a)*np.max(a),
  \<close>
\<close>

record dist =
  pdf :: "real list option"
  pdf_normed :: "real list option"
  cdf_normed :: "real list option"

definition normed ::
  "real list option \<Rightarrow> real list option \<Rightarrow> real list \<Rightarrow> py_error + dist" where
  "normed pdf_a cum_a a =
     (case np_max cum_a of
        Inl err \<Rightarrow> Inl err
      | Inr max_cum \<Rightarrow>
          (case np_max (Some a) of
             Inl err \<Rightarrow> Inl err
           | Inr max_a \<Rightarrow>
               Inr \<lparr>pdf = pdf_a,
                    pdf_normed = arr_mul (arr_div pdf_a (np_sum pdf_a)) (np_sum (Some a)),
                    cdf_normed = arr_mul (arr_div cum_a max_cum) max_a\<rparr>))"

text \<open>
  \<^verbatim>\<open>
  def gini_33(a):
      random = prng(seed=args.seed if args.seed else None)
      uni_a = random.uniform(size=np.size(a))/np.size(a)
      uni_a /= np.max(uni_a)
      cum_a = np.cumsum(np.sort(uni_a))
      return {...}
  \<close>
\<close>

definition gini_33 ::
  "(nat \<Rightarrow> nat \<Rightarrow> real list) \<Rightarrow> int \<Rightarrow> nat \<Rightarrow> real list \<Rightarrow> py_error + dist" where
  "gini_33 uniform seed entropy a =
     (case default_rng (seed_argument seed) entropy of
        Inl err \<Rightarrow> Inl err
      | Inr random \<Rightarrow>
          (let uni_a = arr_div (Some (uniform random (length a))) (Some (real (length a)))
           in case np_max uni_a of
                Inl err \<Rightarrow> Inl err
              | Inr m \<Rightarrow>
                  (let uni_a = arr_div uni_a m;
                       cum_a = map_option (\<lambda>xs. np_cumsum (sort xs)) uni_a
                   in normed uni_a cum_a a)))"

text \<open>
  \<^verbatim>\<open>
  def gini_66(a):
      pdf_a = lambda b: lambda a: b*np.power(a, b-1)/np.power(1+np.power(a, b), 2)
      random = prng(seed=args.seed if args.seed else None)
      uni_a = random.uniform(size=np.size(a))/np.size(a)
      log_a = pdf_a(5)(np.sort(uni_a))
      log_a /= np.max(log_a)
      cum_a = np.cumsum(log_a)
      return {...}
  \<close>
\<close>

definition pdf_a :: "nat \<Rightarrow> real \<Rightarrow> real option" where
  "pdf_a b x = fdiv (real b * x ^ (b - 1)) ((1 + x ^ b) ^ 2)"

definition arr_map :: "(real \<Rightarrow> real option) \<Rightarrow> real list option \<Rightarrow> real list option" where
  "arr_map f a =
     (case a of
        None \<Rightarrow> None
      | Some xs \<Rightarrow> those (map f xs))"

definition gini_66 ::
  "(nat \<Rightarrow> nat \<Rightarrow> real list) \<Rightarrow> int \<Rightarrow> nat \<Rightarrow> real list \<Rightarrow> py_error + dist" where
  "gini_66 uniform seed entropy a =
     (case default_rng (seed_argument seed) entropy of
        Inl err \<Rightarrow> Inl err
      | Inr random \<Rightarrow>
          (let uni_a = arr_div (Some (uniform random (length a))) (Some (real (length a)));
               log_a = arr_map (pdf_a 5) (map_option sort uni_a)
           in case np_max log_a of
                Inl err \<Rightarrow> Inl err
              | Inr m \<Rightarrow>
                  (let log_a = arr_div log_a m;
                       cum_a = map_option np_cumsum log_a
                   in normed log_a cum_a a)))"

text \<open>A generator for the examples: the draws depend on the number that seeds it.\<close>

definition toy_uniform :: "nat \<Rightarrow> nat \<Rightarrow> real list" where
  "toy_uniform s n = map (\<lambda>i. 1 / real (s + i + 1)) [0..<n]"



section \<open>Properties of the Nakamoto coefficient\<close>

subsection \<open>Running sums and the binary search\<close>

lemma length_cumsum_from: "length (cumsum_from acc xs) = length xs"
  by (induction xs arbitrary: acc) auto

lemma nth_cumsum_from:
  "i < length xs \<Longrightarrow> cumsum_from acc xs ! i = acc + sum_list (take (Suc i) xs)"
proof (induction xs arbitrary: acc i)
  case Nil
  then show ?case by simp
next
  case (Cons x xs)
  show ?case
  proof (cases i)
    case 0
    then show ?thesis by simp
  next
    case (Suc j)
    with Cons.prems have "j < length xs" by simp
    from Cons.IH [OF this, of "acc + x"] Suc show ?thesis by simp
  qed
qed

lemma sum_list_take_mono:
  assumes "\<forall>x\<in>set xs. (0::real) \<le> x" and "i \<le> j"
  shows "sum_list (take i xs) \<le> sum_list (take j xs)"
proof -
  have "take j xs = take i xs @ take (j - i) (drop i xs)"
    using assms(2) by (metis le_add_diff_inverse take_add)
  moreover have "0 \<le> sum_list (take (j - i) (drop i xs))"
    using assms(1) by (meson in_set_dropD in_set_takeD sum_list_nonneg)
  ultimately show ?thesis by simp
qed

lemma sorted_cumsum_from:
  assumes "\<forall>x\<in>set xs. (0::real) \<le> x"
  shows "sorted (cumsum_from acc xs)"
  unfolding sorted_iff_nth_mono length_cumsum_from
proof (intro allI impI)
  fix i j assume "i \<le> j" "j < length xs"
  then show "cumsum_from acc xs ! i \<le> cumsum_from acc xs ! j"
    using sum_list_take_mono [OF assms, of "Suc i" "Suc j"]
    by (simp add: nth_cumsum_from)
qed

lemma binsearch_left_spec:
  assumes "sorted a" and "lo \<le> hi" and "hi \<le> length a"
    and "\<forall>i<lo. a ! i < key"
    and "\<forall>i. hi \<le> i \<and> i < length a \<longrightarrow> key \<le> a ! i"
  shows "binsearch_left a key lo hi \<le> length a
       \<and> (\<forall>i<binsearch_left a key lo hi. a ! i < key)
       \<and> (\<forall>i. binsearch_left a key lo hi \<le> i \<and> i < length a \<longrightarrow> key \<le> a ! i)"
  using assms
proof (induction a key lo hi rule: binsearch_left.induct)
  case (1 a key lo hi)
  show ?case
  proof (cases "lo < hi")
    case False
    with "1.prems" have "lo = hi" by simp
    moreover have "binsearch_left a key lo hi = lo"
      using False by (simp add: binsearch_left.simps [of a key lo hi])
    ultimately show ?thesis using "1.prems" by simp
  next
    case True
    define mid where "mid = lo + (hi - lo) div 2"
    from True have mid: "lo \<le> mid" "mid < hi" unfolding mid_def by auto
    show ?thesis
    proof (cases "a ! mid < key")
      case less: True
      have below: "\<forall>i<mid + 1. a ! i < key"
      proof (intro allI impI)
        fix i assume "i < mid + 1"
        then have "i \<le> mid" by simp
        with mid "1.prems"(3) have "a ! i \<le> a ! mid"
          using "1.prems"(1) by (auto simp: sorted_iff_nth_mono)
        with less show "a ! i < key" by simp
      qed
      have "binsearch_left a key lo hi = binsearch_left a key (mid + 1) hi"
        using True less by (simp add: binsearch_left.simps [of a key lo hi] mid_def Let_def)
      moreover have "binsearch_left a key (mid + 1) hi \<le> length a
       \<and> (\<forall>i<binsearch_left a key (mid + 1) hi. a ! i < key)
       \<and> (\<forall>i. binsearch_left a key (mid + 1) hi \<le> i \<and> i < length a \<longrightarrow> key \<le> a ! i)"
        using "1.IH"(1) [OF True mid_def less "1.prems"(1) _ "1.prems"(3) below "1.prems"(5)] mid
        by simp
      ultimately show ?thesis by simp
    next
      case geq: False
      have above: "\<forall>i. mid \<le> i \<and> i < length a \<longrightarrow> key \<le> a ! i"
      proof (intro allI impI)
        fix i assume "mid \<le> i \<and> i < length a"
        then have "a ! mid \<le> a ! i"
          using "1.prems"(1) by (auto simp: sorted_iff_nth_mono)
        with geq show "key \<le> a ! i" by simp
      qed
      have "binsearch_left a key lo hi = binsearch_left a key lo mid"
        using True geq by (simp add: binsearch_left.simps [of a key lo hi] mid_def Let_def)
      moreover have "binsearch_left a key lo mid \<le> length a
       \<and> (\<forall>i<binsearch_left a key lo mid. a ! i < key)
       \<and> (\<forall>i. binsearch_left a key lo mid \<le> i \<and> i < length a \<longrightarrow> key \<le> a ! i)"
        using "1.IH"(2) [OF True mid_def geq "1.prems"(1) _ _ "1.prems"(4) above] mid "1.prems"(3)
        by simp
      ultimately show ?thesis by simp
    qed
  qed
qed

lemma searchsorted_left_spec:
  assumes "sorted a"
  shows "searchsorted_left a v \<le> length a"
    and "\<forall>i<searchsorted_left a v. a ! i < v"
    and "\<forall>i. searchsorted_left a v \<le> i \<and> i < length a \<longrightarrow> v \<le> a ! i"
  using binsearch_left_spec [OF assms, of 0 "length a" v]
  by (simp_all add: searchsorted_left_def)

lemma searchsorted_left_mono:
  assumes "sorted a" and "v1 \<le> v2"
  shows "searchsorted_left a v1 \<le> searchsorted_left a v2"
proof (rule ccontr)
  assume "\<not> ?thesis"
  then have lt: "searchsorted_left a v2 < searchsorted_left a v1" by simp
  with searchsorted_left_spec(2) [OF assms(1), of v1]
  have "a ! searchsorted_left a v2 < v1" by simp
  moreover from lt searchsorted_left_spec(1) [OF assms(1), of v1]
  have "searchsorted_left a v2 < length a" by simp
  with searchsorted_left_spec(3) [OF assms(1), of v2]
  have "v2 \<le> a ! searchsorted_left a v2" by simp
  ultimately show False using assms(2) by simp
qed

text \<open>On a sorted array the index found is determined by the two bounds.\<close>

lemma searchsorted_left_unique:
  assumes "sorted a" and "r \<le> length a"
    and "\<forall>i<r. a ! i < v"
    and "\<forall>i. r \<le> i \<and> i < length a \<longrightarrow> v \<le> a ! i"
  shows "searchsorted_left a v = r"
proof -
  let ?s = "searchsorted_left a v"
  note sp = searchsorted_left_spec [OF assms(1), of v]
  have "\<not> ?s < r"
  proof
    assume "?s < r"
    with assms(2,3) sp(3) have "a ! ?s < v" "v \<le> a ! ?s" by auto
    then show False by simp
  qed
  moreover have "\<not> r < ?s"
  proof
    assume "r < ?s"
    with sp(1,2) assms(4) have "a ! r < v" "v \<le> a ! r" by auto
    then show False by simp
  qed
  ultimately show ?thesis by simp
qed



subsection \<open>The coefficient as a least covering prefix\<close>

lemma nakamoto_nonempty:
  "ws \<noteq> [] \<Longrightarrow>
   nakamoto ws t = searchsorted_left (np_cumsum (rev (sort ws))) (sum_list ws * t) + 1"
  by (simp add: nakamoto_def Let_def)

lemma sum_list_insort: "sum_list (insort x xs) = x + sum_list (xs::real list)"
  by (induction xs) auto

lemma sum_list_sort: "sum_list (sort ws) = sum_list (ws::real list)"
  by (induction ws) (auto simp: sum_list_insort)

lemma sum_list_rev_sort: "sum_list (rev (sort ws)) = sum_list (ws::real list)"
  by (simp add: sum_list_sort)

lemma nth_np_cumsum_sorted:
  "i < length ws \<Longrightarrow> np_cumsum (rev (sort ws)) ! i = sum_largest ws (Suc i)"
  by (simp add: np_cumsum_def nth_cumsum_from sum_largest_def)

lemma sorted_np_cumsum_sorted:
  "\<forall>w\<in>set ws. 0 \<le> w \<Longrightarrow> sorted (np_cumsum (rev (sort ws)))"
  unfolding np_cumsum_def by (rule sorted_cumsum_from) simp

lemma length_np_cumsum: "length (np_cumsum xs) = length xs"
  by (simp add: np_cumsum_def length_cumsum_from)

lemma sum_largest_all: "length ws \<le> k \<Longrightarrow> sum_largest ws k = sum_list ws"
  using sum_list_rev_sort [of ws] by (simp add: sum_largest_def)

lemma nakamoto_cover:
  assumes ne: "ws \<noteq> []" and nonneg: "\<forall>w\<in>set ws. 0 \<le> w" and t: "0 < t" "t < 1"
  shows "1 \<le> nakamoto ws t" and "nakamoto ws t \<le> length ws"
    and "t * sum_list ws \<le> sum_largest ws (nakamoto ws t)"
    and "\<forall>j. 1 \<le> j \<and> j < nakamoto ws t \<longrightarrow> sum_largest ws j < t * sum_list ws"
proof -
  let ?c = "np_cumsum (rev (sort ws))"
  let ?v = "sum_list ws * t"
  let ?r = "searchsorted_left ?c ?v"
  have k: "nakamoto ws t = ?r + 1" using ne by (rule nakamoto_nonempty)
  have srt: "sorted ?c" using nonneg by (rule sorted_np_cumsum_sorted)
  note sp = searchsorted_left_spec [OF srt, of ?v]
  have len: "length ?c = length ws" by (simp add: length_np_cumsum)
  have tot: "0 \<le> sum_list ws" using nonneg by (simp add: sum_list_nonneg)
  have r_lt: "?r < length ws"
  proof (rule ccontr)
    assume "\<not> ?r < length ws"
    with sp(1) len have "?r = length ws" by simp
    with sp(2) ne have "?c ! (length ws - 1) < ?v" by simp
    moreover have "?c ! (length ws - 1) = sum_list ws"
      using ne nth_np_cumsum_sorted [of "length ws - 1" ws] by (simp add: sum_largest_all)
    moreover have "?v \<le> sum_list ws" using tot t by (simp add: mult_left_le)
    ultimately show False by simp
  qed
  show "1 \<le> nakamoto ws t" using k by simp
  show "nakamoto ws t \<le> length ws" using k r_lt by simp
  have "?v \<le> ?c ! ?r" using sp(3) r_lt len by simp
  then have "?v \<le> sum_largest ws (Suc ?r)" using nth_np_cumsum_sorted [OF r_lt] by simp
  then show "t * sum_list ws \<le> sum_largest ws (nakamoto ws t)"
    using k by (simp add: mult.commute)
  show "\<forall>j. 1 \<le> j \<and> j < nakamoto ws t \<longrightarrow> sum_largest ws j < t * sum_list ws"
  proof (intro allI impI)
    fix j assume j: "1 \<le> j \<and> j < nakamoto ws t"
    then have "j - 1 < ?r" using k by linarith
    with sp(2) have "?c ! (j - 1) < ?v" by simp
    moreover have "j - 1 < length ws" using j k r_lt by linarith
    ultimately have "sum_largest ws (Suc (j - 1)) < ?v"
      using nth_np_cumsum_sorted [of "j - 1" ws] by simp
    then show "sum_largest ws j < t * sum_list ws"
      using j by (simp add: mult.commute)
  qed
qed

text \<open>
  Claim C1. For a nonempty sequence of non-negative weights and a threshold strictly
  between 0 and 1, \<open>nakamoto\<close> is the least \<open>k \<ge> 1\<close> such that the \<open>k\<close> largest
  weights sum to at least the threshold times the total; it lies between 1 and the
  number of weights. On the empty sequence the result is 0.
\<close>

theorem nakamoto_least_prefix:
  "nakamoto [] t = 0 \<and>
   (ws \<noteq> [] \<and> (\<forall>w\<in>set ws. 0 \<le> w) \<and> 0 < t \<and> t < 1 \<longrightarrow>
      1 \<le> nakamoto ws t \<and> nakamoto ws t \<le> length ws \<and>
      nakamoto ws t = (LEAST k. 1 \<le> k \<and> t * sum_list ws \<le> sum_largest ws k))"
proof (intro conjI impI)
  show "nakamoto [] t = 0" by (simp add: nakamoto_def)
next
  assume h: "ws \<noteq> [] \<and> (\<forall>w\<in>set ws. 0 \<le> w) \<and> 0 < t \<and> t < 1"
  then show "1 \<le> nakamoto ws t" using nakamoto_cover(1) by blast
next
  assume h: "ws \<noteq> [] \<and> (\<forall>w\<in>set ws. 0 \<le> w) \<and> 0 < t \<and> t < 1"
  then show "nakamoto ws t \<le> length ws" using nakamoto_cover(2) by blast
next
  assume h: "ws \<noteq> [] \<and> (\<forall>w\<in>set ws. 0 \<le> w) \<and> 0 < t \<and> t < 1"
  then have c: "1 \<le> nakamoto ws t" "t * sum_list ws \<le> sum_largest ws (nakamoto ws t)"
    "\<forall>j. 1 \<le> j \<and> j < nakamoto ws t \<longrightarrow> sum_largest ws j < t * sum_list ws"
    using nakamoto_cover [of ws t] by blast+
  have "(LEAST k. 1 \<le> k \<and> t * sum_list ws \<le> sum_largest ws k) = nakamoto ws t"
  proof (rule Least_equality)
    show "1 \<le> nakamoto ws t \<and> t * sum_list ws \<le> sum_largest ws (nakamoto ws t)"
      using c by simp
  next
    fix y assume y: "1 \<le> y \<and> t * sum_list ws \<le> sum_largest ws y"
    show "nakamoto ws t \<le> y"
    proof (rule ccontr)
      assume "\<not> nakamoto ws t \<le> y"
      with y c(3) have "sum_largest ws y < t * sum_list ws" by simp
      with y show False by simp
    qed
  qed
  then show "nakamoto ws t = (LEAST k. 1 \<le> k \<and> t * sum_list ws \<le> sum_largest ws k)"
    by simp
qed

theorem nakamoto_least_prefix_witness:
  "[70, 10, 10, 10] \<noteq> ([]::real list)
   \<and> (0::real) < 3 / 10 \<and> (3 / 10 :: real) < 1
   \<and> nakamoto [70, 10, 10, 10] (3 / 10) = 1
   \<and> (LEAST k. 1 \<le> k \<and> 3 / 10 * sum_list [70, 10, 10, 10] \<le> sum_largest [70, 10, 10, 10] k) = 1"
proof -
  have e: "nakamoto [70, 10, 10, 10] (3 / 10) = 1"
    by (simp add: nakamoto_def np_cumsum_def searchsorted_left_def binsearch_left.simps)
  have h: "[70, 10, 10, 10] \<noteq> ([]::real list) \<and> (\<forall>w\<in>set [70, 10, 10, 10 :: real]. 0 \<le> w)
   \<and> (0::real) < 3 / 10 \<and> (3 / 10 :: real) < 1" by simp
  from nakamoto_least_prefix [of "3 / 10" "[70, 10, 10, 10]"] h e show ?thesis
    by presburger
qed

text \<open>
  Claim C10. For non-negative weights and thresholds \<open>0 < t1 \<le> t2 \<le> 1\<close> the
  coefficient at \<open>t1\<close> is at most the coefficient at \<open>t2\<close>: lowering the threshold
  never raises the coefficient.
\<close>

theorem nakamoto_threshold_mono:
  assumes "\<forall>w\<in>set ws. 0 \<le> w" and "0 < t1" and "t1 \<le> t2" and "t2 \<le> 1"
  shows "nakamoto ws t1 \<le> nakamoto ws t2"
proof (cases "ws = []")
  case True
  then show ?thesis by (simp add: nakamoto_def)
next
  case False
  have "0 \<le> sum_list ws" using assms(1) by (simp add: sum_list_nonneg)
  then have "sum_list ws * t1 \<le> sum_list ws * t2"
    using assms(3) by (simp add: mult_left_mono)
  then have "searchsorted_left (np_cumsum (rev (sort ws))) (sum_list ws * t1)
      \<le> searchsorted_left (np_cumsum (rev (sort ws))) (sum_list ws * t2)"
    using sorted_np_cumsum_sorted [OF assms(1)] by (rule searchsorted_left_mono [rotated])
  then show ?thesis using False by (simp add: nakamoto_nonempty)
qed

theorem nakamoto_threshold_mono_witness:
  "(0::real) < 3 / 10 \<and> (3 / 10 :: real) \<le> 9 / 10
   \<and> (9 / 10 :: real) \<le> 1 \<and> nakamoto [70, 10, 10, 10] (3 / 10) = 1
   \<and> nakamoto [70, 10, 10, 10] (9 / 10) = 3
   \<and> nakamoto [70, 10, 10, 10] (3 / 10) \<le> nakamoto [70, 10, 10, 10] (9 / 10)"
proof -
  have h1: "\<forall>w\<in>set [70, 10, 10, 10 :: real]. 0 \<le> w" by simp
  have h2: "(0::real) < 3 / 10" by simp
  have h3: "(3 / 10 :: real) \<le> 9 / 10" by simp
  have h4: "(9 / 10 :: real) \<le> 1" by simp
  have e1: "nakamoto [70, 10, 10, 10] (3 / 10) = 1"
    by (simp add: nakamoto_def np_cumsum_def searchsorted_left_def binsearch_left.simps)
  have e2: "nakamoto [70, 10, 10, 10] (9 / 10) = 3"
    by (simp add: nakamoto_def np_cumsum_def searchsorted_left_def binsearch_left.simps)
  from nakamoto_threshold_mono [OF h1 h2 h3 h4] h1 h2 h3 h4 e1 e2 show ?thesis by blast
qed


subsection \<open>The coefficient at threshold 1\<close>

lemma filter_insort_length:
  "length (filter P (insort x xs)) = length (filter P (x # xs))"
  by (induction xs) auto

lemma filter_sort_length: "length (filter P (sort ws)) = length (filter P ws)"
  by (induction ws) (auto simp: filter_insort_length)

lemma count_nonzero_rev_sort: "count_nonzero (rev (sort ws)) = count_nonzero ws"
  unfolding count_nonzero_def
  by (metis filter_sort_length length_rev rev_filter)

lemma sum_list_pos_iff:
  assumes "\<forall>x\<in>set xs. (0::real) \<le> x"
  shows "0 < sum_list xs \<longleftrightarrow> 0 < count_nonzero xs"
  using assms
proof (induction xs)
  case Nil
  then show ?case by (simp add: count_nonzero_def)
next
  case (Cons x xs)
  then have "0 \<le> sum_list xs" "0 \<le> x" by (simp_all add: sum_list_nonneg)
  with Cons show ?case by (auto simp: count_nonzero_def)
qed

lemma take_sum_less_iff:
  assumes "sorted_wrt (\<ge>) s" and "\<forall>x\<in>set s. (0::real) \<le> x"
  shows "sum_list (take i s) < sum_list s \<longleftrightarrow> i < count_nonzero s"
  using assms
proof (induction s arbitrary: i)
  case Nil
  then show ?case by (simp add: count_nonzero_def)
next
  case (Cons x xs)
  show ?case
  proof (cases i)
    case 0
    then show ?thesis using sum_list_pos_iff [OF Cons.prems(2)] by simp
  next
    case (Suc j)
    from Cons.prems have ih: "sum_list (take j xs) < sum_list xs \<longleftrightarrow> j < count_nonzero xs"
      by (intro Cons.IH) simp_all
    show ?thesis
    proof (cases "x = 0")
      case False
      with ih Suc show ?thesis by (simp add: count_nonzero_def)
    next
      case True
      with Cons.prems have "\<forall>y\<in>set xs. y = 0" by fastforce
      then have "count_nonzero xs = 0" by (simp add: count_nonzero_def)
      with ih True Suc show ?thesis by (simp add: count_nonzero_def)
    qed
  qed
qed

lemma sorted_wrt_rev_sort: "sorted_wrt (\<ge>) (rev (sort (ws::real list)))"
proof -
  have "sorted (sort ws)" by simp
  then show ?thesis by (simp add: sorted_wrt_rev)
qed

lemma nakamoto_full:
  assumes ne: "ws \<noteq> []" and nonneg: "\<forall>w\<in>set ws. 0 \<le> w"
  shows "nakamoto ws 1 = count_nonzero ws - 1 + 1"
proof -
  let ?s = "rev (sort ws)"
  let ?c = "np_cumsum ?s"
  have srt: "sorted ?c" using nonneg by (rule sorted_np_cumsum_sorted)
  have iff: "sum_list (take i ?s) < sum_list ws \<longleftrightarrow> i < count_nonzero ws" for i
    using take_sum_less_iff [OF sorted_wrt_rev_sort, of ws i] nonneg
    by (simp add: sum_list_sort count_nonzero_rev_sort)
  have cn: "count_nonzero ws \<le> length ws" by (simp add: count_nonzero_def)
  have "searchsorted_left ?c (sum_list ws) = count_nonzero ws - 1"
  proof (rule searchsorted_left_unique [OF srt])
    show "count_nonzero ws - 1 \<le> length ?c" using cn by (simp add: length_np_cumsum)
  next
    show "\<forall>i<count_nonzero ws - 1. ?c ! i < sum_list ws"
    proof (intro allI impI)
      fix i assume i: "i < count_nonzero ws - 1"
      then have "Suc i < count_nonzero ws" by linarith
      then have "sum_list (take (Suc i) ?s) < sum_list ws" using iff by blast
      moreover have "i < length ws" using i cn by simp
      ultimately show "?c ! i < sum_list ws"
        by (simp add: np_cumsum_def nth_cumsum_from)
    qed
  next
    show "\<forall>i. count_nonzero ws - 1 \<le> i \<and> i < length ?c \<longrightarrow> sum_list ws \<le> ?c ! i"
    proof (intro allI impI)
      fix i assume i: "count_nonzero ws - 1 \<le> i \<and> i < length ?c"
      then have "\<not> Suc i < count_nonzero ws" by linarith
      then have "\<not> sum_list (take (Suc i) ?s) < sum_list ws" using iff by blast
      moreover have "i < length ws" using i by (simp add: length_np_cumsum)
      ultimately show "sum_list ws \<le> ?c ! i"
        by (simp add: np_cumsum_def nth_cumsum_from)
    qed
  qed
  then show ?thesis using ne by (simp add: nakamoto_nonempty)
qed

text \<open>
  Claim C7 says that at threshold 1 the coefficient is the number of nonzero weights.
  On a nonempty sequence of zeros the search stops at index 0 and the function returns
  1, while no weight is nonzero.
\<close>

theorem nakamoto_full_threshold_counterexample:
  "nakamoto [0] 1 = 1 \<and> count_nonzero [0] = 0"
  by (simp add: nakamoto_def np_cumsum_def searchsorted_left_def binsearch_left.simps
      count_nonzero_def)

text \<open>
  Claim C7, amended. For non-negative weights, \<open>nakamoto weights 1\<close> is the number of
  nonzero weights whenever some weight is nonzero; it is 1 on a nonempty sequence of
  zeros and 0 on the empty sequence.
\<close>

theorem nakamoto_full_threshold:
  assumes "\<forall>w\<in>set ws. 0 \<le> w"
  shows "((\<exists>w\<in>set ws. w \<noteq> 0) \<longrightarrow> nakamoto ws 1 = count_nonzero ws)
       \<and> (ws \<noteq> [] \<and> (\<forall>w\<in>set ws. w = 0) \<longrightarrow> nakamoto ws 1 = 1)
       \<and> (ws = [] \<longrightarrow> nakamoto ws 1 = 0)"
proof (intro conjI impI)
  assume "\<exists>w\<in>set ws. w \<noteq> 0"
  then have "ws \<noteq> []" "0 < count_nonzero ws"
    by (auto simp: count_nonzero_def filter_empty_conv)
  with nakamoto_full [OF _ assms] show "nakamoto ws 1 = count_nonzero ws" by simp
next
  assume h: "ws \<noteq> [] \<and> (\<forall>w\<in>set ws. w = 0)"
  then have "count_nonzero ws = 0" by (simp add: count_nonzero_def)
  with nakamoto_full [OF _ assms] h show "nakamoto ws 1 = 1" by simp
next
  assume "ws = []"
  then show "nakamoto ws 1 = 0" by (simp add: nakamoto_def)
qed

theorem nakamoto_full_threshold_witness:
  "(\<exists>w\<in>set [5, 0, 7, 0 :: real]. w \<noteq> 0)
   \<and> nakamoto [5, 0, 7, 0] 1 = 2 \<and> count_nonzero [5, 0, 7, 0] = 2
   \<and> [0, 0] \<noteq> ([]::real list) \<and> nakamoto [0, 0] 1 = 1
   \<and> nakamoto [] 1 = 0"
proof -
  have h1: "\<forall>w\<in>set [5, 0, 7, 0 :: real]. 0 \<le> w" by simp
  have h2: "\<forall>w\<in>set [0, 0 :: real]. 0 \<le> w" by simp
  have h3: "\<forall>w\<in>set ([] :: real list). 0 \<le> w" by simp
  have c: "count_nonzero [5, 0, 7, 0] = 2" by (simp add: count_nonzero_def)
  from nakamoto_full_threshold [OF h1] nakamoto_full_threshold [OF h2]
    nakamoto_full_threshold [OF h3] c h1
  show ?thesis by simp
qed


section \<open>Properties of the GINI coefficient\<close>

lemma sum_list_nth_lessThan: "sum_list xs = (\<Sum>i<length xs. (xs ! i :: real))"
  by (simp add: sum_list_sum_nth atLeast0LessThan)

lemma sum_list_map_nth_lessThan: "sum_list (map f xs) = (\<Sum>i<length xs. (f (xs ! i) :: real))"
  using sum_list_nth_lessThan [of "map f xs"] by simp

lemma length_subtract_outer: "length (subtract_outer a b) = length a * length b"
  by (induction a) (auto simp: subtract_outer_def)

lemma sum_abs_subtract_outer:
  "sum_list (map abs (subtract_outer a b)) = (\<Sum>i<length a. \<Sum>j<length b. \<bar>a ! i - b ! j\<bar>)"
proof -
  have "sum_list (map abs (subtract_outer a b))
      = sum_list (map (\<lambda>x. sum_list (map (\<lambda>y. \<bar>x - y\<bar>) b)) a)"
    by (induction a) (auto simp: subtract_outer_def comp_def)
  also have "\<dots> = (\<Sum>i<length a. sum_list (map (\<lambda>y. \<bar>a ! i - y\<bar>) b))"
    by (rule sum_list_map_nth_lessThan)
  also have "\<dots> = (\<Sum>i<length a. \<Sum>j<length b. \<bar>a ! i - b ! j\<bar>)"
    by (simp add: sum_list_map_nth_lessThan)
  finally show ?thesis .
qed

lemma gini_formula_nonempty:
  assumes "a \<noteq> []"
  shows "gini_formula a = fdiv (mean_abs_diff a) (2 * arith_mean a)"
proof -
  have n: "real (length a) \<noteq> 0" "real (length a * length a) \<noteq> 0" using assms by simp_all
  have mad: "np_mean (map abs (subtract_outer a a)) = Some (mean_abs_diff a)"
    using n unfolding np_mean_def fdiv_def mean_abs_diff_def
    by (simp add: length_subtract_outer sum_abs_subtract_outer del: of_nat_mult)
  have m: "np_mean a = Some (arith_mean a)"
    using n unfolding np_mean_def fdiv_def arith_mean_def
    by (simp add: sum_list_nth_lessThan [symmetric])
  show ?thesis
    unfolding gini_formula_def mad m by (simp add: fdiv_def)
qed

text \<open>
  Both versions compute the mean absolute difference over all ordered pairs divided by
  twice the arithmetic mean on every nonempty array, and \<^verbatim>\<open>analyze.gini\<close> returns 0
  on the empty one.
\<close>

lemma gini_mean_abs_difference:
  "gini [] = Some 0
   \<and> (a \<noteq> [] \<longrightarrow> gini a = fdiv (mean_abs_diff a) (2 * arith_mean a)
                \<and> stakes_gini a = fdiv (mean_abs_diff a) (2 * arith_mean a))"
  by (simp add: gini_def stakes_gini_def gini_formula_nonempty)

lemma gini_example:
  "gini [1, 2, 3] = Some (2 / 9) \<and> gini [10, 10, 10, 10] = Some 0 \<and> gini [0, 0] = None"
  by (simp add: gini_def gini_formula_def np_mean_def fdiv_def subtract_outer_def)

text \<open>
  Claim C2 (the result is 0.0 on a sequence of length 0, and the mean absolute
  difference over twice the mean otherwise). \<^verbatim>\<open>stakes.gini\<close> has no case for the
  empty array: both means are \<^verbatim>\<open>nan\<close> there, and so is the result, where
  \<^verbatim>\<open>analyze.gini\<close> returns 0.
\<close>

theorem stakes_gini_empty:
  "stakes_gini [] = None \<and> gini [] = Some 0"
  by (simp add: stakes_gini_def gini_def gini_formula_def np_mean_def fdiv_def
      subtract_outer_def)


section \<open>Properties of the grouping\<close>

subsection \<open>The invariant of a grouping loop\<close>

lemma grouped_empty: "grouped keyf ab fresh [] []"
  by (simp add: grouped_def)

lemma members_append: "members keyf k (ps @ [v]) = members keyf k ps @ (if keyf v = k then [v] else [])"
  by (simp add: members_def)

lemma members_empty_iff: "members keyf k ps = [] \<longleftrightarrow> k \<notin> keyf ` set ps"
  by (auto simp: members_def filter_empty_conv)

lemma grouped_lookup:
  assumes "grouped keyf ab fresh groups ps"
  shows "(case map_of groups k of None \<Rightarrow> fresh | Some g \<Rightarrow> g) = foldl ab fresh (members keyf k ps)"
proof (cases "k \<in> keyf ` set ps")
  case True
  with assms show ?thesis by (simp add: grouped_def)
next
  case False
  then have "members keyf k ps = []" by (simp add: members_empty_iff)
  with False assms show ?thesis by (simp add: grouped_def)
qed

lemma grouped_update:
  assumes "grouped keyf ab fresh groups ps"
  shows "grouped keyf ab fresh
           (AList.update (keyf v)
              (ab (case map_of groups (keyf v) of None \<Rightarrow> fresh | Some g \<Rightarrow> g) v) groups)
           (ps @ [v])"
  unfolding grouped_def
proof (intro conjI allI)
  show "distinct (map fst (AList.update (keyf v)
      (ab (case map_of groups (keyf v) of None \<Rightarrow> fresh | Some g \<Rightarrow> g) v) groups))"
    using assms by (simp add: grouped_def distinct_update)
next
  fix k
  show "map_of (AList.update (keyf v)
            (ab (case map_of groups (keyf v) of None \<Rightarrow> fresh | Some g \<Rightarrow> g) v) groups) k =
        (if k \<in> keyf ` set (ps @ [v]) then Some (foldl ab fresh (members keyf k (ps @ [v])))
         else None)"
  proof (cases "k = keyf v")
    case True
    then show ?thesis
      using grouped_lookup [OF assms, of "keyf v"]
      by (simp add: update_conv' members_append)
  next
    case False
    then show ?thesis
      using assms by (auto simp: update_conv' members_append grouped_def)
  qed
qed

lemma grouped_keys:
  assumes "grouped keyf ab fresh groups ps"
  shows "set (map fst groups) = keyf ` set ps"
proof -
  have "fst ` set groups = dom (map_of groups)" by (simp add: dom_map_of_conv_image_fst)
  also have "\<dots> = keyf ` set ps"
    using assms by (auto simp: grouped_def dom_def)
  finally show ?thesis by simp
qed

lemma grouped_entry:
  assumes "grouped keyf ab fresh groups ps" and "(k, e) \<in> set groups"
  shows "k \<in> keyf ` set ps \<and> e = foldl ab fresh (members keyf k ps)"
proof -
  from assms(1) have "distinct (map fst groups)" by (simp add: grouped_def)
  with assms(2) have "map_of groups k = Some e" by simp
  moreover from assms(1) have "map_of groups k =
        (if k \<in> keyf ` set ps then Some (foldl ab fresh (members keyf k ps)) else None)"
    by (simp add: grouped_def)
  ultimately show ?thesis by (simp split: if_splits)
qed


subsection \<open>by_address\<close>

lemma by_address_step_complete:
  assumes "has_required_fields v"
  shows "by_address_step groups v =
     Inr (AList.update (key_of v)
            (absorb (case map_of groups (key_of v) of None \<Rightarrow> fresh_entity | Some g \<Rightarrow> g) v)
            groups)"
  using assms
  by (auto simp: has_required_fields_def by_address_step_def absorb_def key_of_def total_of_def
      get_or_def Let_def)

lemma by_address_step_incomplete:
  assumes "\<not> has_required_fields v"
  shows "\<exists>name. by_address_step groups v = Inl (KeyError name)"
  using assms
  by (auto simp: has_required_fields_def by_address_step_def Let_def split: option.splits)

lemma by_address_loop_complete:
  assumes "\<forall>v\<in>set vs. has_required_fields v" and "grouped key_of absorb fresh_entity groups ps"
  shows "\<exists>groups'. by_address_loop groups vs = Inr groups'
           \<and> grouped key_of absorb fresh_entity groups' (ps @ vs)"
  using assms
proof (induction vs arbitrary: groups ps)
  case Nil
  then show ?case by simp
next
  case (Cons v vs)
  let ?g = "AList.update (key_of v)
            (absorb (case map_of groups (key_of v) of None \<Rightarrow> fresh_entity | Some g \<Rightarrow> g) v)
            groups"
  from Cons.prems have step: "by_address_step groups v = Inr ?g"
    by (simp add: by_address_step_complete)
  have "grouped key_of absorb fresh_entity ?g (ps @ [v])"
    using Cons.prems(2) by (rule grouped_update)
  with Cons.IH [of ?g "ps @ [v]"] Cons.prems(1)
  show ?case by (simp add: step)
qed

lemma by_address_loop_incomplete:
  assumes "\<not> (\<forall>v\<in>set vs. has_required_fields v)"
  shows "\<exists>name. by_address_loop groups vs = Inl (KeyError name)"
  using assms
proof (induction vs arbitrary: groups)
  case Nil
  then show ?case by simp
next
  case (Cons v vs)
  show ?case
  proof (cases "has_required_fields v")
    case False
    from by_address_step_incomplete [OF this, of groups] show ?thesis by auto
  next
    case True
    with Cons.prems have "\<not> (\<forall>v\<in>set vs. has_required_fields v)" by simp
    from Cons.IH [OF this] show ?thesis
      by (simp add: by_address_step_complete [OF True])
  qed
qed

lemma by_address_grouped:
  assumes "\<forall>v\<in>set vs. has_required_fields v"
  shows "\<exists>groups. by_address vs = Inr (map snd groups) \<and> grouped key_of absorb fresh_entity groups vs"
  using by_address_loop_complete [OF assms grouped_empty]
  by (auto simp: by_address_def)

lemma by_address_succeeds_iff:
  "(\<exists>es. by_address vs = Inr es) \<longleftrightarrow> (\<forall>v\<in>set vs. has_required_fields v)"
proof
  assume "\<exists>es. by_address vs = Inr es"
  then show "\<forall>v\<in>set vs. has_required_fields v"
    using by_address_loop_incomplete [of vs "[]"]
    by (auto simp: by_address_def split: sum.splits)
next
  assume "\<forall>v\<in>set vs. has_required_fields v"
  then show "\<exists>es. by_address vs = Inr es" using by_address_grouped by blast
qed

lemma foldl_absorb_total:
  "e_totalWeight (foldl absorb g ms) = e_totalWeight g + sum_list (map total_of ms)"
  by (induction ms arbitrary: g) (auto simp: absorb_def)

lemma foldl_absorb_addresses:
  "e_rewardAddresses (foldl absorb g ms) = e_rewardAddresses g \<union> \<Union> (key_of ` set ms)"
  by (induction ms arbitrary: g) (auto simp: absorb_def)

lemma foldl_absorb_weight:
  "e_weight (foldl absorb g ms) = e_weight g + sum_list (map (\<lambda>v. get_or 0 (v_weight v)) ms)"
  by (induction ms arbitrary: g) (auto simp: absorb_def)

lemma foldl_absorb_delegator:
  "e_delegatorWeight (foldl absorb g ms) = e_delegatorWeight g + sum_list (map get_delegated ms)"
  by (induction ms arbitrary: g) (auto simp: absorb_def)

lemma members_keys: "k \<in> key_of ` set ps \<Longrightarrow> \<Union> (key_of ` set (members key_of k ps)) = k"
  by (auto simp: members_def)

lemma grouped_absorb_addresses:
  assumes "grouped key_of absorb fresh_entity groups ps" and "(k, e) \<in> set groups"
  shows "e_rewardAddresses e = k"
  using grouped_entry [OF assms] members_keys [of k ps]
  by (simp add: foldl_absorb_addresses fresh_entity_def)

lemma grouped_absorb_map_addresses:
  assumes "grouped key_of absorb fresh_entity groups ps"
  shows "map e_rewardAddresses (map snd groups) = map fst groups"
  using grouped_absorb_addresses [OF assms] by (auto simp: map_eq_conv)


lemma foldl_absorb_id:
  "e_id (foldl absorb g ms) = e_id g \<union> \<Union> (ids_of ` set ms)"
  by (induction ms arbitrary: g) (auto simp: absorb_def ids_of_def)

lemma sum_snd_update:
  fixes f :: "'v \<Rightarrow> int"
  shows "sum_list (map (\<lambda>p. f (snd p)) (AList.update k v al)) =
         sum_list (map (\<lambda>p. f (snd p)) al) + f v
           - (case map_of al k of None \<Rightarrow> 0 | Some u \<Rightarrow> f u)"
  by (induction al) auto

lemma by_address_step_total:
  assumes "by_address_step groups v = Inr groups'"
  shows "sum_list (map (\<lambda>p. e_totalWeight (snd p)) groups') =
         sum_list (map (\<lambda>p. e_totalWeight (snd p)) groups) + total_of v"
proof -
  from assms have c: "has_required_fields v"
    using by_address_step_incomplete [of v groups] by auto
  from assms by_address_step_complete [OF c, of groups]
  have "groups' = AList.update (key_of v)
            (absorb (case map_of groups (key_of v) of None \<Rightarrow> fresh_entity | Some g \<Rightarrow> g) v)
            groups" by simp
  then show ?thesis
    by (simp add: sum_snd_update absorb_def fresh_entity_def split: option.splits)
qed

lemma by_address_loop_total:
  assumes "by_address_loop groups vs = Inr groups'"
  shows "sum_list (map (\<lambda>p. e_totalWeight (snd p)) groups') =
         sum_list (map (\<lambda>p. e_totalWeight (snd p)) groups) + sum_list (map total_of vs)"
  using assms
proof (induction vs arbitrary: groups)
  case Nil
  then show ?case by simp
next
  case (Cons v vs)
  then obtain g1 where s: "by_address_step groups v = Inr g1"
    and l: "by_address_loop g1 vs = Inr groups'"
    by (auto split: sum.splits)
  from Cons.IH [OF l] by_address_step_total [OF s] show ?case by simp
qed

lemma by_address_total:
  assumes "by_address vs = Inr es"
  shows "sum_list (map e_totalWeight es) = sum_list (map total_of vs)"
proof -
  from assms obtain groups where l: "by_address_loop [] vs = Inr groups"
    and es: "es = map snd groups"
    by (auto simp: by_address_def split: sum.splits)
  from by_address_loop_total [OF l] show ?thesis by (simp add: es comp_def)
qed

lemma by_address_entities:
  assumes "\<forall>v\<in>set vs. has_required_fields v"
  shows "\<exists>es. by_address vs = Inr es
       \<and> distinct (map e_rewardAddresses es)
       \<and> set (map e_rewardAddresses es) = key_of ` set vs
       \<and> (\<forall>e\<in>set es. e = foldl absorb fresh_entity (members key_of (e_rewardAddresses e) vs))"
proof -
  from by_address_grouped [OF assms] obtain groups
    where r: "by_address vs = Inr (map snd groups)"
      and g: "grouped key_of absorb fresh_entity groups vs" by blast
  have a: "map e_rewardAddresses (map snd groups) = map fst groups"
    using g by (rule grouped_absorb_map_addresses)
  have d: "distinct (map e_rewardAddresses (map snd groups))"
    using g unfolding a by (simp add: grouped_def)
  have k: "set (map e_rewardAddresses (map snd groups)) = key_of ` set vs"
    unfolding a using g by (rule grouped_keys)
  have m: "\<forall>e\<in>set (map snd groups).
      e = foldl absorb fresh_entity (members key_of (e_rewardAddresses e) vs)"
  proof
    fix e assume "e \<in> set (map snd groups)"
    then obtain k where ke: "(k, e) \<in> set groups" by auto
    from grouped_entry [OF g ke] grouped_absorb_addresses [OF g ke]
    show "e = foldl absorb fresh_entity (members key_of (e_rewardAddresses e) vs)" by simp
  qed
  from r d k m show ?thesis by blast
qed

lemma entity_of_Some:
  assumes "set (map e_rewardAddresses es) = key_of ` set vs" and "v \<in> set vs"
  shows "\<exists>e. entity_of es v = Some e \<and> e \<in> set es \<and> e_rewardAddresses e = key_of v"
proof -
  from assms have "key_of v \<in> e_rewardAddresses ` set es" by auto
  then have "entity_of es v \<noteq> None" by (auto simp: entity_of_def find_None_iff)
  then obtain e where e: "entity_of es v = Some e" by auto
  then show ?thesis by (auto simp: entity_of_def find_Some_iff)
qed

text \<open>
  Claim C4. On validators that have the fields it reads, \<^verbatim>\<open>analyze.by_address\<close>
  returns entities with pairwise different address sets, one for each address set that
  occurs among the validators (as a set: order and repetition in the list of addresses do
  not matter). An entity's identifiers and total weight are the union and the sum over
  exactly the validators whose address set equals the entity's. Every validator lies in
  an entity, and two validators lie in the same entity if and only if their address sets
  are equal; overlapping sets are not enough.
\<close>

theorem by_address_merges_equal_sets:
  assumes "\<forall>v\<in>set vs. has_required_fields v"
  shows "(\<exists>es. by_address vs = Inr es)
       \<and> (\<forall>es. by_address vs = Inr es \<longrightarrow>
            distinct (map e_rewardAddresses es)
          \<and> set (map e_rewardAddresses es) = key_of ` set vs
          \<and> (\<forall>e\<in>set es.
                e_id e = \<Union> (ids_of ` set (members key_of (e_rewardAddresses e) vs))
              \<and> e_totalWeight e
                  = sum_list (map total_of (members key_of (e_rewardAddresses e) vs)))
          \<and> (\<forall>v1\<in>set vs. \<forall>v2\<in>set vs.
                entity_of es v1 \<noteq> None
              \<and> (entity_of es v1 = entity_of es v2 \<longleftrightarrow> key_of v1 = key_of v2)))"
proof (intro conjI allI impI)
  show "\<exists>es. by_address vs = Inr es" using by_address_entities [OF assms] by blast
next
  fix es assume r: "by_address vs = Inr es"
  with by_address_entities [OF assms]
  have d: "distinct (map e_rewardAddresses es)"
    and k: "set (map e_rewardAddresses es) = key_of ` set vs"
    and m: "\<forall>e\<in>set es. e = foldl absorb fresh_entity (members key_of (e_rewardAddresses e) vs)"
    by auto
  show "distinct (map e_rewardAddresses es)" by (rule d)
  show "set (map e_rewardAddresses es) = key_of ` set vs" by (rule k)
  show "\<forall>e\<in>set es.
            e_id e = \<Union> (ids_of ` set (members key_of (e_rewardAddresses e) vs))
          \<and> e_totalWeight e = sum_list (map total_of (members key_of (e_rewardAddresses e) vs))"
  proof
    fix e assume "e \<in> set es"
    with m have e: "e = foldl absorb fresh_entity (members key_of (e_rewardAddresses e) vs)" by blast
    have "e_id (foldl absorb fresh_entity (members key_of (e_rewardAddresses e) vs))
          = \<Union> (ids_of ` set (members key_of (e_rewardAddresses e) vs))"
      by (simp add: foldl_absorb_id fresh_entity_def)
    moreover have "e_totalWeight (foldl absorb fresh_entity (members key_of (e_rewardAddresses e) vs))
          = sum_list (map total_of (members key_of (e_rewardAddresses e) vs))"
      by (simp add: foldl_absorb_total fresh_entity_def)
    ultimately show "e_id e = \<Union> (ids_of ` set (members key_of (e_rewardAddresses e) vs))
          \<and> e_totalWeight e = sum_list (map total_of (members key_of (e_rewardAddresses e) vs))"
      using e by metis
  qed
  show "\<forall>v1\<in>set vs. \<forall>v2\<in>set vs.
            entity_of es v1 \<noteq> None
          \<and> (entity_of es v1 = entity_of es v2 \<longleftrightarrow> key_of v1 = key_of v2)"
  proof (intro ballI conjI)
    fix v1 v2 assume v: "v1 \<in> set vs" "v2 \<in> set vs"
    from entity_of_Some [OF k v(1)] obtain e1
      where e1: "entity_of es v1 = Some e1" "e_rewardAddresses e1 = key_of v1" by blast
    from entity_of_Some [OF k v(2)] obtain e2
      where e2: "entity_of es v2 = Some e2" "e_rewardAddresses e2 = key_of v2" by blast
    show "entity_of es v1 \<noteq> None" using e1 by simp
    show "entity_of es v1 = entity_of es v2 \<longleftrightarrow> key_of v1 = key_of v2"
    proof
      assume "entity_of es v1 = entity_of es v2"
      with e1 e2 show "key_of v1 = key_of v2" by simp
    next
      assume "key_of v1 = key_of v2"
      then show "entity_of es v1 = entity_of es v2" by (simp add: entity_of_def)
    qed
  qed
qed

theorem by_address_merges_equal_sets_witness:
  "by_address [basic_validator ''n1'' [''A'', ''B''] 5 5,
               basic_validator ''n2'' [''B'', ''A'', ''A''] 7 7,
               basic_validator ''n3'' [''A''] 2 2]
   = Inr [\<lparr>e_id = {''n1'', ''n2''}, e_rewardAddresses = {''A'', ''B''}, e_weight = 12,
            e_delegatorWeight = 0, e_totalWeight = 12\<rparr>,
          \<lparr>e_id = {''n3''}, e_rewardAddresses = {''A''}, e_weight = 2,
            e_delegatorWeight = 0, e_totalWeight = 2\<rparr>]
   \<and> entity_of [\<lparr>e_id = {''n1'', ''n2''}, e_rewardAddresses = {''A'', ''B''}, e_weight = 12,
            e_delegatorWeight = 0, e_totalWeight = 12\<rparr>,
          \<lparr>e_id = {''n3''}, e_rewardAddresses = {''A''}, e_weight = 2,
            e_delegatorWeight = 0, e_totalWeight = 2\<rparr>]
        (basic_validator ''n1'' [''A'', ''B''] 5 5)
     = entity_of [\<lparr>e_id = {''n1'', ''n2''}, e_rewardAddresses = {''A'', ''B''}, e_weight = 12,
            e_delegatorWeight = 0, e_totalWeight = 12\<rparr>,
          \<lparr>e_id = {''n3''}, e_rewardAddresses = {''A''}, e_weight = 2,
            e_delegatorWeight = 0, e_totalWeight = 2\<rparr>]
        (basic_validator ''n2'' [''B'', ''A'', ''A''] 7 7)
   \<and> entity_of [\<lparr>e_id = {''n1'', ''n2''}, e_rewardAddresses = {''A'', ''B''}, e_weight = 12,
            e_delegatorWeight = 0, e_totalWeight = 12\<rparr>,
          \<lparr>e_id = {''n3''}, e_rewardAddresses = {''A''}, e_weight = 2,
            e_delegatorWeight = 0, e_totalWeight = 2\<rparr>]
        (basic_validator ''n1'' [''A'', ''B''] 5 5)
     \<noteq> entity_of [\<lparr>e_id = {''n1'', ''n2''}, e_rewardAddresses = {''A'', ''B''}, e_weight = 12,
            e_delegatorWeight = 0, e_totalWeight = 12\<rparr>,
          \<lparr>e_id = {''n3''}, e_rewardAddresses = {''A''}, e_weight = 2,
            e_delegatorWeight = 0, e_totalWeight = 2\<rparr>]
        (basic_validator ''n3'' [''A''] 2 2)"
  (is "by_address ?vs = Inr ?es \<and> entity_of ?es ?v1 = entity_of ?es ?v2
        \<and> entity_of ?es ?v1 \<noteq> entity_of ?es ?v3")
proof -
  have r: "by_address ?vs = Inr ?es" by (simp add: by_address_def by_address_step_def fresh_entity_def id_list_def
      get_delegated_def Let_def insert_commute basic_validator_def)
  have h: "\<forall>v\<in>set ?vs. has_required_fields v"
    by (simp add: has_required_fields_def basic_validator_def)
  have k12: "key_of ?v1 = key_of ?v2"
    by (simp add: key_of_def get_or_def basic_validator_def insert_commute)
  have k13: "key_of ?v1 \<noteq> key_of ?v3"
    by (auto simp: key_of_def get_or_def basic_validator_def)
  note t = by_address_merges_equal_sets [OF h, THEN conjunct2, THEN spec, THEN mp, OF r]
  note i = t [THEN conjunct2, THEN conjunct2, THEN conjunct2]
  have m1: "?v1 \<in> set ?vs" and m2: "?v2 \<in> set ?vs" and m3: "?v3 \<in> set ?vs"
    by simp_all
  from i [THEN bspec, OF m1, THEN bspec, OF m2] k12
  have a: "entity_of ?es ?v1 = entity_of ?es ?v2" by blast
  from i [THEN bspec, OF m1, THEN bspec, OF m3] k13
  have b: "entity_of ?es ?v1 \<noteq> entity_of ?es ?v3" by blast
  from r a b show ?thesis by (intro conjI)
qed


lemma count_geo_fields:
  "e_id (count_geo g v) = e_id g"
  "e_rewardAddresses (count_geo g v) = e_rewardAddresses g"
  "e_weight (count_geo g v) = e_weight g"
  "e_delegatorWeight (count_geo g v) = e_delegatorWeight g"
  "e_totalWeight (count_geo g v) = e_totalWeight g"
  "x_validators (count_geo g v) = x_validators g"
  by (simp_all add: count_geo_def Let_def)

lemma by_address_ext_step_eq:
  "by_address_ext_step groups v =
     (if has_address v
      then AList.update (key_of v)
             (absorb_ext (case map_of groups (key_of v) of None \<Rightarrow> fresh_entity_ext | Some g \<Rightarrow> g) v)
             groups
      else groups)"
  by (simp add: by_address_ext_step_def has_address_def key_of_def absorb_ext_def total_of_def
      Let_def)

lemma foldl_ext_grouped:
  assumes "grouped key_of absorb_ext fresh_entity_ext groups (filter has_address ps)"
  shows "grouped key_of absorb_ext fresh_entity_ext (foldl by_address_ext_step groups vs)
           (filter has_address (ps @ vs))"
  using assms
proof (induction vs arbitrary: groups ps)
  case Nil
  then show ?case by simp
next
  case (Cons v vs)
  have "grouped key_of absorb_ext fresh_entity_ext (by_address_ext_step groups v)
          (filter has_address (ps @ [v]))"
  proof (cases "has_address v")
    case True
    with grouped_update [OF Cons.prems, of v] show ?thesis
      by (simp add: by_address_ext_step_eq)
  next
    case False
    with Cons.prems show ?thesis by (simp add: by_address_ext_step_eq)
  qed
  from Cons.IH [OF this] show ?case by simp
qed

lemma by_address_ext_grouped:
  "\<exists>groups. by_address_ext vs = map snd groups
      \<and> grouped key_of absorb_ext fresh_entity_ext groups (filter has_address vs)"
  using foldl_ext_grouped [of "[]" "[]" vs]
  by (auto simp: by_address_ext_def grouped_empty)

lemma foldl_absorb_ext_total:
  "e_totalWeight (foldl absorb_ext g ms) = e_totalWeight g + sum_list (map total_of ms)"
  by (induction ms arbitrary: g) (auto simp: absorb_ext_def count_geo_fields)

lemma foldl_absorb_ext_addresses:
  "e_rewardAddresses (foldl absorb_ext g ms) = e_rewardAddresses g \<union> \<Union> (key_of ` set ms)"
  by (induction ms arbitrary: g) (auto simp: absorb_ext_def count_geo_fields)

lemma foldl_absorb_ext_validators:
  "x_validators (foldl absorb_ext g ms) = x_validators g @ ms"
  by (induction ms arbitrary: g) (auto simp: absorb_ext_def count_geo_fields)

lemma members_filter_has_address:
  "k \<noteq> {} \<Longrightarrow> members key_of k (filter has_address vs) = members key_of k vs"
  by (induction vs) (auto simp: members_def has_address_def)

lemma by_address_ext_step_total:
  "sum_list (map (\<lambda>p. e_totalWeight (snd p)) (by_address_ext_step groups v)) =
   sum_list (map (\<lambda>p. e_totalWeight (snd p)) groups) + (if has_address v then total_of v else 0)"
  by (simp add: by_address_ext_step_eq sum_snd_update absorb_ext_def count_geo_fields
      fresh_entity_ext_def split: option.splits)

lemma foldl_ext_total:
  "sum_list (map (\<lambda>p. e_totalWeight (snd p)) (foldl by_address_ext_step groups vs)) =
   sum_list (map (\<lambda>p. e_totalWeight (snd p)) groups)
     + sum_list (map total_of (filter has_address vs))"
  by (induction vs arbitrary: groups) (auto simp: by_address_ext_step_total)

lemma by_address_ext_total:
  "sum_list (map e_totalWeight (by_address_ext vs)) =
   sum_list (map total_of (filter has_address vs))"
  using foldl_ext_total [of "[]" vs] by (simp add: by_address_ext_def comp_def)

lemma by_address_ext_members:
  assumes "e \<in> set (by_address_ext vs)"
  shows "x_validators e = members key_of (e_rewardAddresses e) vs
       \<and> e_totalWeight e = sum_list (map total_of (x_validators e))"
proof -
  from by_address_ext_grouped [of vs] obtain groups
    where r: "by_address_ext vs = map snd groups"
      and g: "grouped key_of absorb_ext fresh_entity_ext groups (filter has_address vs)" by blast
  from assms r obtain k where ke: "(k, e) \<in> set groups" by auto
  from grouped_entry [OF g ke]
  have k: "k \<in> key_of ` set (filter has_address vs)"
    and e: "e = foldl absorb_ext fresh_entity_ext (members key_of k (filter has_address vs))"
    by simp_all
  from k have ne: "k \<noteq> {}" by (auto simp: has_address_def)
  then have e': "e = foldl absorb_ext fresh_entity_ext (members key_of k vs)"
    using e by (simp add: members_filter_has_address)
  from k have "k \<in> key_of ` set vs" by auto
  then have "\<Union> (key_of ` set (members key_of k vs)) = k" by (rule members_keys)
  then have a: "e_rewardAddresses e = k"
    by (subst e') (simp add: foldl_absorb_ext_addresses fresh_entity_ext_def)
  have v: "x_validators e = members key_of k vs"
    by (subst e') (simp add: foldl_absorb_ext_validators fresh_entity_ext_def)
  have t: "e_totalWeight e = sum_list (map total_of (members key_of k vs))"
    by (subst e') (simp add: foldl_absorb_ext_total fresh_entity_ext_def)
  from a v t show ?thesis by simp
qed

lemma by_address_ext_address_sets:
  "distinct (map e_rewardAddresses (by_address_ext vs))
   \<and> set (map e_rewardAddresses (by_address_ext vs)) = key_of ` set (filter has_address vs)"
proof -
  from by_address_ext_grouped [of vs] obtain groups
    where r: "by_address_ext vs = map snd groups"
      and g: "grouped key_of absorb_ext fresh_entity_ext groups (filter has_address vs)" by blast
  have "\<forall>p\<in>set groups. e_rewardAddresses (snd p) = fst p"
  proof
    fix p assume p: "p \<in> set groups"
    then have "snd p \<in> set (by_address_ext vs)" using r by simp
    from by_address_ext_members [OF this]
    have m: "x_validators (snd p) = members key_of (e_rewardAddresses (snd p)) vs" by simp
    from p have "(fst p, snd p) \<in> set groups" by simp
    from grouped_entry [OF g this]
    have k: "fst p \<in> key_of ` set (filter has_address vs)"
      and e: "snd p = foldl absorb_ext fresh_entity_ext
                 (members key_of (fst p) (filter has_address vs))" by simp_all
    from k have "\<Union> (key_of ` set (members key_of (fst p) (filter has_address vs))) = fst p"
      by (rule members_keys)
    then show "e_rewardAddresses (snd p) = fst p"
      by (subst e) (simp add: foldl_absorb_ext_addresses fresh_entity_ext_def)
  qed
  then have a: "map e_rewardAddresses (map snd groups) = map fst groups" by simp
  show ?thesis
    unfolding r a using g grouped_keys [OF g] by (simp add: grouped_def)
qed


text \<open>
  Claim C3 says that the entities' total weights add up to the total weight of the
  validators with a non-empty address set. \<^verbatim>\<open>analyze.by_address\<close> has no test for an
  empty address set: such a validator is grouped under the empty key and its weight is
  counted.
\<close>

theorem grouping_conserves_stake_counterexample:
  "by_address [basic_validator ''n0'' [] 5 5]
   = Inr [\<lparr>e_id = {''n0''}, e_rewardAddresses = {}, e_weight = 5, e_delegatorWeight = 0,
           e_totalWeight = 5\<rparr>]
   \<and> sum_list (map total_of (filter has_address [basic_validator ''n0'' [] 5 5])) = 0"
  by (simp add: by_address_def by_address_step_def fresh_entity_def id_list_def
      get_delegated_def has_address_def key_of_def get_or_def total_of_def Let_def
      basic_validator_def)

text \<open>
  Claim C3, amended. \<^verbatim>\<open>by_address_ext\<close> keeps, for every entity, exactly the validators
  whose address set is the entity's, the entity's total weight is the sum of theirs, and
  the entities' total weights add up to the total weight of the validators with a
  non-empty address set. \<^verbatim>\<open>analyze.by_address\<close>, whenever it returns, gives every entity
  the summed total weight of the validators with the entity's address set, and the
  entities' total weights add up to the total weight of all validators, those with an
  empty address set included; it returns exactly when every validator has the four
  fields it reads by subscript.
\<close>

theorem grouping_conserves_stake:
  "(\<forall>e\<in>set (by_address_ext vs).
        x_validators e = members key_of (e_rewardAddresses e) vs
      \<and> e_totalWeight e = sum_list (map total_of (x_validators e)))
   \<and> distinct (map e_rewardAddresses (by_address_ext vs))
   \<and> sum_list (map e_totalWeight (by_address_ext vs))
       = sum_list (map total_of (filter has_address vs))
   \<and> (\<forall>es. by_address vs = Inr es \<longrightarrow>
         (\<forall>e\<in>set es. e_totalWeight e
            = sum_list (map total_of (members key_of (e_rewardAddresses e) vs)))
       \<and> sum_list (map e_totalWeight es) = sum_list (map total_of vs))
   \<and> ((\<exists>es. by_address vs = Inr es) \<longleftrightarrow> (\<forall>v\<in>set vs. has_required_fields v))"
proof (intro conjI allI impI ballI)
  fix e assume "e \<in> set (by_address_ext vs)"
  from by_address_ext_members [OF this]
  show "x_validators e = members key_of (e_rewardAddresses e) vs"
    and "e_totalWeight e = sum_list (map total_of (x_validators e))" by simp_all
next
  show "distinct (map e_rewardAddresses (by_address_ext vs))"
    using by_address_ext_address_sets [of vs] by simp
next
  show "sum_list (map e_totalWeight (by_address_ext vs))
       = sum_list (map total_of (filter has_address vs))"
    by (rule by_address_ext_total)
next
  fix es e assume r: "by_address vs = Inr es" and e: "e \<in> set es"
  then have "\<forall>v\<in>set vs. has_required_fields v" using by_address_succeeds_iff by blast
  from by_address_entities [OF this] r e
  have "e = foldl absorb fresh_entity (members key_of (e_rewardAddresses e) vs)" by auto
  then have "e_totalWeight e
      = e_totalWeight (foldl absorb fresh_entity (members key_of (e_rewardAddresses e) vs))" by simp
  then show "e_totalWeight e = sum_list (map total_of (members key_of (e_rewardAddresses e) vs))"
    by (simp add: foldl_absorb_total fresh_entity_def)
next
  fix es assume "by_address vs = Inr es"
  then show "sum_list (map e_totalWeight es) = sum_list (map total_of vs)"
    by (rule by_address_total)
next
  show "(\<exists>es. by_address vs = Inr es) \<longleftrightarrow> (\<forall>v\<in>set vs. has_required_fields v)"
    by (rule by_address_succeeds_iff)
qed

theorem grouping_conserves_stake_witness:
  "by_address [basic_validator ''n0'' [] 5 5, basic_validator ''n1'' [''X''] 5 5,
               basic_validator ''n2'' [''X''] 7 7]
   = Inr [\<lparr>e_id = {''n0''}, e_rewardAddresses = {}, e_weight = 5, e_delegatorWeight = 0,
            e_totalWeight = 5\<rparr>,
          \<lparr>e_id = {''n1'', ''n2''}, e_rewardAddresses = {''X''}, e_weight = 12,
            e_delegatorWeight = 0, e_totalWeight = 12\<rparr>]
   \<and> sum_list (map e_totalWeight
        [\<lparr>e_id = {''n0''}, e_rewardAddresses = {}, e_weight = 5, e_delegatorWeight = 0,
            e_totalWeight = 5\<rparr>,
          \<lparr>e_id = {''n1'', ''n2''}, e_rewardAddresses = {''X''}, e_weight = 12,
            e_delegatorWeight = 0, e_totalWeight = 12\<rparr>]) = 17
   \<and> sum_list (map e_totalWeight (by_address_ext
        [basic_validator ''n0'' [] 5 5, basic_validator ''n1'' [''X''] 5 5,
         basic_validator ''n2'' [''X''] 7 7])) = 12"
  (is "by_address ?vs = Inr ?es \<and> _ = 17 \<and> _ = 12")
proof -
  have r: "by_address ?vs = Inr ?es"
    by (simp add: by_address_def by_address_step_def fresh_entity_def id_list_def
      get_delegated_def Let_def insert_commute basic_validator_def)
  have t: "sum_list (map total_of ?vs) = 17"
    by (simp add: total_of_def get_or_def basic_validator_def)
  have f: "sum_list (map total_of (filter has_address ?vs)) = 12"
    by (simp add: total_of_def get_or_def has_address_def key_of_def basic_validator_def)
  from grouping_conserves_stake [of ?vs] r t f show ?thesis by simp
qed

subsection \<open>The grouping of \<^verbatim>\<open>stakes.py\<close>\<close>

text \<open>
  Claim C5 (no state is carried from one call of \<open>by_address\<close> to the next). The grouping
  of \<^verbatim>\<open>stakes.py\<close> keeps its groups in the default argument: called twice on the same
  one validator, it returns total weight 5 the first time and 10 the second time.
\<close>

theorem stakes_by_address_carries_state:
  "stakes_two_calls [basic_validator ''n1'' [''X''] 5 5\<lparr>v_delegatedWeight := Some 0\<rparr>]
                    [basic_validator ''n1'' [''X''] 5 5\<lparr>v_delegatedWeight := Some 0\<rparr>]
   = (Inr [\<lparr>s_id = {''n1''}, s_rewardAddresses = {''X''}, s_weight = 5,
              s_delegatedWeight = 0, s_totalWeight = 5\<rparr>],
      Inr [\<lparr>s_id = {''n1''}, s_rewardAddresses = {''X''}, s_weight = 10,
              s_delegatedWeight = 0, s_totalWeight = 10\<rparr>])"
  by (simp add: stakes_two_calls_def stakes_step_def fresh_sgroup_def id_list_def
      basic_validator_def Let_def)

text \<open>
  Claim C6 (either name of the delegated weight is accepted, and its absence is not an
  error). The grouping of \<^verbatim>\<open>stakes.py\<close> reads \<^verbatim>\<open>v['delegatedWeight']\<close> only: a record
  that carries the weight under the newer name \<^verbatim>\<open>delegatorWeight\<close> raises
  \<^verbatim>\<open>KeyError\<close>, where \<^verbatim>\<open>analyze.by_address\<close> groups the same record.
\<close>

theorem stakes_by_address_rejects_delegatorWeight:
  "fst (stakes_by_address [basic_validator ''n1'' [''X''] 5 7\<lparr>v_delegatorWeight := Some 2\<rparr>] [])
     = Inl (KeyError ''delegatedWeight'')
   \<and> by_address [basic_validator ''n1'' [''X''] 5 7\<lparr>v_delegatorWeight := Some 2\<rparr>]
     = Inr [\<lparr>e_id = {''n1''}, e_rewardAddresses = {''X''}, e_weight = 5,
              e_delegatorWeight = 2, e_totalWeight = 7\<rparr>]"
  by (simp add: stakes_step_def fresh_sgroup_def id_list_def basic_validator_def Let_def
      by_address_def by_address_step_def fresh_entity_def get_delegated_def)

text \<open>
  The two other groupings do what claim C6 says: the newer name wins, the older one is
  the fallback, zero is the default, and no step fails for the delegated weight.
\<close>

lemma get_delegated_cases:
  "v_delegatorWeight v = Some d \<Longrightarrow> get_delegated v = d"
  "v_delegatorWeight v = None \<Longrightarrow> v_delegatedWeight v = Some d \<Longrightarrow> get_delegated v = d"
  "v_delegatorWeight v = None \<Longrightarrow> v_delegatedWeight v = None \<Longrightarrow> get_delegated v = 0"
  by (simp_all add: get_delegated_def)

lemma by_address_step_delegated:
  assumes "has_required_fields v"
  shows "\<exists>groups'. by_address_step groups v = Inr groups'
     \<and> map_option e_delegatorWeight (map_of groups' (key_of v))
       = Some ((case map_of groups (key_of v) of None \<Rightarrow> 0 | Some g \<Rightarrow> e_delegatorWeight g)
               + get_delegated v)"
  by (simp add: by_address_step_complete [OF assms] update_conv' absorb_def fresh_entity_def
      split: option.splits)

lemma by_address_never_misses_delegated:
  "by_address_step groups v \<noteq> Inl (KeyError ''delegatedWeight'')
   \<and> by_address_step groups v \<noteq> Inl (KeyError ''delegatorWeight'')"
  by (simp add: by_address_step_def Let_def split: option.splits)

lemma stakes_step_missing_delegated:
  assumes "has_required_fields v" and "v_delegatedWeight v = None"
  shows "fst (stakes_step groups v) = Some (KeyError ''delegatedWeight'')"
  using assms
  by (auto simp: stakes_step_def has_required_fields_def Let_def split: option.splits)

lemma by_address_ext_step_delegated:
  assumes "has_address v"
  shows "map_option e_delegatorWeight (map_of (by_address_ext_step groups v) (key_of v))
       = Some ((case map_of groups (key_of v) of None \<Rightarrow> 0 | Some g \<Rightarrow> e_delegatorWeight g)
               + get_delegated v)"
  using assms
  by (simp add: by_address_ext_step_eq update_conv' absorb_ext_def count_geo_fields
      fresh_entity_ext_def split: option.splits)


section \<open>Properties of the quarterly selection\<close>

lemma foldl_snoc: "foldl snoc acc ms = acc @ ms"
  by (induction ms arbitrary: acc) (auto simp: snoc_def)

lemma quarter_step_parsed:
  assumes "strptime_ymd d \<noteq> None"
  shows "quarter_step quarters d =
     Inr (AList.update (quarter_of d)
            (snoc (case map_of quarters (quarter_of d) of None \<Rightarrow> [] | Some ds \<Rightarrow> ds) d)
            quarters)"
  using assms
  by (auto simp: quarter_step_def quarter_of_def date_of_def snoc_def Let_def)

lemma quarter_loop_grouped:
  assumes "\<forall>d\<in>set ds. strptime_ymd d \<noteq> None" and "grouped quarter_of snoc [] quarters ps"
  shows "\<exists>quarters'. quarter_loop quarters ds = Inr quarters'
           \<and> grouped quarter_of snoc [] quarters' (ps @ ds)"
  using assms
proof (induction ds arbitrary: quarters ps)
  case Nil
  then show ?case by simp
next
  case (Cons d ds)
  let ?q = "AList.update (quarter_of d)
            (snoc (case map_of quarters (quarter_of d) of None \<Rightarrow> [] | Some ds \<Rightarrow> ds) d)
            quarters"
  from Cons.prems have step: "quarter_step quarters d = Inr ?q"
    by (simp add: quarter_step_parsed)
  have "grouped quarter_of snoc [] ?q (ps @ [d])"
    using Cons.prems(2) by (rule grouped_update)
  with Cons.IH [of ?q "ps @ [d]"] Cons.prems(1)
  show ?case by (simp add: step)
qed

lemma collect_map:
  assumes "\<forall>k\<in>set ks. f k = Inr (g k)"
  shows "collect (map f ks) = Inr (map g ks)"
  using assms by (induction ks) auto

lemma sorted_le_last:
  assumes "sorted xs" and "x \<in> set xs"
  shows "x \<le> last xs"
  using assms by (induction xs) auto

lemma sorted_last_Max:
  assumes "sorted xs" and "xs \<noteq> []"
  shows "last xs = Max (set xs)"
proof -
  have "Max (set xs) = last xs"
  proof (rule Max_eqI)
    show "finite (set xs)" by simp
    show "\<And>y. y \<in> set xs \<Longrightarrow> y \<le> last xs" using assms(1) by (rule sorted_le_last)
    show "last xs \<in> set xs" using assms(2) by simp
  qed
  then show ?thesis by simp
qed

lemma set_members: "set (members keyf k xs) = {x \<in> set xs. keyf x = k}"
  by (auto simp: members_def)

lemma pick_last_nonempty:
  assumes "map_of quarters k = Some ds" and "ds \<noteq> []"
  shows "pick_last quarters k = Inr (last ds)"
  using assms by (cases ds) (simp_all add: pick_last_def)

lemma get_quarterly_dates_eq:
  assumes srt: "sorted dates" and ok: "\<forall>d\<in>set dates. strptime_ymd d \<noteq> None"
  shows "get_quarterly_dates dates = Inr (latest_per_quarter dates)"
proof -
  from quarter_loop_grouped [OF ok grouped_empty] obtain quarters
    where l: "quarter_loop [] dates = Inr quarters"
      and g: "grouped quarter_of snoc [] quarters dates" by auto
  have keys: "set (map fst quarters) = quarter_of ` set dates" using g by (rule grouped_keys)
  have dist: "distinct (map fst quarters)" using g by (simp add: grouped_def)
  have sk: "sort (map fst quarters) = sorted_list_of_set (quarter_of ` set dates)"
  proof -
    have "sorted_list_of_set (set (sort (map fst quarters))) = sort (map fst quarters)"
      by (rule sorted_list_of_set.idem_if_sorted_distinct) (simp_all add: dist)
    then show ?thesis using keys by simp
  qed
  have pick: "\<forall>k\<in>set (sorted_list_of_set (quarter_of ` set dates)).
      pick_last quarters k = Inr (Max {d \<in> set dates. quarter_of d = k})"
  proof
    fix k assume "k \<in> set (sorted_list_of_set (quarter_of ` set dates))"
    then have k: "k \<in> quarter_of ` set dates" by simp
    from g have "map_of quarters k =
        (if k \<in> quarter_of ` set dates
         then Some (foldl snoc [] (members quarter_of k dates)) else None)"
      unfolding grouped_def by blast
    with k have m: "map_of quarters k = Some (members quarter_of k dates)"
      by (simp add: foldl_snoc)
    from k have ne: "members quarter_of k dates \<noteq> []" by (simp add: members_empty_iff)
    have "sorted (members quarter_of k dates)"
      unfolding members_def using srt by (rule sorted_wrt_filter)
    from sorted_last_Max [OF this ne]
    have "last (members quarter_of k dates) = Max {d \<in> set dates. quarter_of d = k}"
      by (simp add: set_members)
    with pick_last_nonempty [OF m ne]
    show "pick_last quarters k = Inr (Max {d \<in> set dates. quarter_of d = k})" by simp
  qed
  show ?thesis
    unfolding get_quarterly_dates_def l latest_per_quarter_def
    by (simp add: sk collect_map [OF pick])
qed

lemma latest_in_quarter:
  assumes "q \<in> quarter_of ` set dates"
  shows "Max {d \<in> set dates. quarter_of d = q} \<in> set dates"
    and "quarter_of (Max {d \<in> set dates. quarter_of d = q}) = q"
proof -
  have "finite {d \<in> set dates. quarter_of d = q}" by simp
  moreover have "{d \<in> set dates. quarter_of d = q} \<noteq> {}" using assms by auto
  ultimately have "Max {d \<in> set dates. quarter_of d = q} \<in> {d \<in> set dates. quarter_of d = q}"
    by (rule Max_in)
  then show "Max {d \<in> set dates. quarter_of d = q} \<in> set dates"
    and "quarter_of (Max {d \<in> set dates. quarter_of d = q}) = q" by simp_all
qed

lemma map_quarter_latest:
  "map quarter_of (latest_per_quarter dates) = sorted_list_of_set (quarter_of ` set dates)"
proof -
  have "map (\<lambda>q. quarter_of (Max {d \<in> set dates. quarter_of d = q}))
          (sorted_list_of_set (quarter_of ` set dates))
        = map (\<lambda>q. q) (sorted_list_of_set (quarter_of ` set dates))"
    by (rule map_cong) (simp_all add: latest_in_quarter(2))
  then show ?thesis by (simp add: latest_per_quarter_def comp_def)
qed

lemma quarter_less_date_less:
  assumes "quarter_of a < quarter_of b"
  shows "date_of a < date_of b"
proof -
  obtain y1 m1 d1 where a: "date_of a = (y1, m1, d1)" by (cases "date_of a") auto
  obtain y2 m2 d2 where b: "date_of b = (y2, m2, d2)" by (cases "date_of b") auto
  from assms have "y1 < y2 \<or> (y1 = y2 \<and> (m1 - 1) div 3 < (m2 - 1) div 3)"
    by (auto simp: quarter_of_def a b)
  then have "y1 < y2 \<or> (y1 = y2 \<and> m1 < m2)"
    by (metis div_le_mono diff_le_mono leI not_less)
  then show ?thesis by (auto simp: a b)
qed

lemma chronological_latest:
  "sorted_wrt (\<lambda>a b. date_of a < date_of b) (latest_per_quarter dates)"
proof -
  have "sorted_wrt (<) (map quarter_of (latest_per_quarter dates))"
    by (simp add: map_quarter_latest)
  then have "sorted_wrt (\<lambda>a b. quarter_of a < quarter_of b) (latest_per_quarter dates)"
    by (simp add: sorted_wrt_map)
  then show ?thesis
    by (rule sorted_wrt_mono_rel [rotated]) (simp add: quarter_less_date_less)
qed

text \<open>
  Claim C8. On an ascending list of date strings that \<^verbatim>\<open>strptime\<close> accepts,
  \<open>get_quarterly_dates\<close> returns one date for each (year, quarter) that occurs, in
  ascending order of (year, quarter); each is a date of the input, the greatest date
  string of its quarter, and the calendar dates of the result increase strictly.
\<close>

theorem get_quarterly_dates_latest:
  assumes "sorted dates" and "\<forall>d\<in>set dates. strptime_ymd d \<noteq> None"
  shows "get_quarterly_dates dates = Inr (latest_per_quarter dates)
       \<and> map quarter_of (latest_per_quarter dates)
           = sorted_list_of_set (quarter_of ` set dates)
       \<and> set (latest_per_quarter dates) \<subseteq> set dates
       \<and> sorted_wrt (\<lambda>a b. date_of a < date_of b) (latest_per_quarter dates)"
proof (intro conjI)
  show "get_quarterly_dates dates = Inr (latest_per_quarter dates)"
    using assms by (rule get_quarterly_dates_eq)
  show "map quarter_of (latest_per_quarter dates) = sorted_list_of_set (quarter_of ` set dates)"
    by (rule map_quarter_latest)
  show "set (latest_per_quarter dates) \<subseteq> set dates"
    by (auto simp: latest_per_quarter_def latest_in_quarter(1))
  show "sorted_wrt (\<lambda>a b. date_of a < date_of b) (latest_per_quarter dates)"
    by (rule chronological_latest)
qed

theorem get_quarterly_dates_latest_witness:
  "sorted [''2024-01-15'', ''2024-03-29'', ''2024-03-31'', ''2024-04-02'']
   \<and> get_quarterly_dates [''2024-01-15'', ''2024-03-29'', ''2024-03-31'', ''2024-04-02'']
       = Inr [''2024-03-31'', ''2024-04-02'']
   \<and> latest_per_quarter [''2024-01-15'', ''2024-03-29'', ''2024-03-31'', ''2024-04-02'']
       = [''2024-03-31'', ''2024-04-02'']"
  (is "sorted ?ds \<and> _ = Inr ?out \<and> _")
proof -
  have s: "sorted ?ds" by simp
  have p: "\<forall>d\<in>set ?ds. strptime_ymd d \<noteq> None" by code_simp
  have e: "get_quarterly_dates ?ds = Inr ?out" by code_simp
  from get_quarterly_dates_latest [OF s p] e s show ?thesis by simp
qed

text \<open>The same selection on a directory listing, for both scripts.\<close>

lemma sorted_sort_filter: "sorted (filter P (sort xs))"
  by (rule sorted_wrt_filter) simp

lemma get_available_dates_quarterly:
  assumes "\<forall>d\<in>set listing. date_name d \<longrightarrow> strptime_ymd d \<noteq> None"
  shows "get_quarterly_dates (get_available_dates listing)
       = Inr (latest_per_quarter (get_available_dates listing))"
proof (rule get_quarterly_dates_eq)
  show "sorted (get_available_dates listing)" by (simp add: get_available_dates_def)
  show "\<forall>d\<in>set (get_available_dates listing). strptime_ymd d \<noteq> None"
    using assms by (simp add: get_available_dates_def)
qed

lemma nakamoto_quarterly_dates_on_listing:
  assumes "\<forall>d\<in>set listing. date_name d \<and> has_ext d \<longrightarrow> strptime_ymd d \<noteq> None"
  shows "nakamoto_get_quarterly_dates listing has_ext
       = Inr (latest_per_quarter (filter (\<lambda>d. date_name d \<and> has_ext d) (sort listing)))"
  unfolding nakamoto_get_quarterly_dates_def
proof (rule get_quarterly_dates_eq)
  show "sorted (filter (\<lambda>d. date_name d \<and> has_ext d) (sort listing))"
    by (rule sorted_sort_filter)
  show "\<forall>d\<in>set (filter (\<lambda>d. date_name d \<and> has_ext d) (sort listing)).
          strptime_ymd d \<noteq> None"
    using assms by simp
qed

text \<open>Without the order of the input the last date of a quarter need not be the latest.\<close>

lemma get_quarterly_dates_unsorted:
  "get_quarterly_dates [''2024-03-31'', ''2024-01-02''] = Inr [''2024-01-02'']"
  by code_simp



section \<open>Properties of the seeded generators\<close>

text \<open>
  Claim C9 says that every seed given on the command line is passed to the generator
  and makes the output reproducible. The seed 0 is not passed: the generator gets
  \<^verbatim>\<open>None\<close> and is seeded by the entropy of the run, so two runs differ.
\<close>

theorem seeded_generators_counterexample:
  "seed_argument 0 = None
   \<and> map_sum id pdf (gini_33 toy_uniform 0 1 [3, 5]) = Inr (Some [1, 2 / 3])
   \<and> map_sum id pdf (gini_33 toy_uniform 0 2 [3, 5]) = Inr (Some [1, 3 / 4])"
  by (simp add: seed_argument_def gini_33_def default_rng_def toy_uniform_def arr_div_def
      np_max_def normed_def np_cumsum_def Let_def upt_rec)

text \<open>
  Claim C9, amended. For every nonzero seed, that seed is what the generator is given,
  and both \<open>gini_33\<close> and \<open>gini_66\<close> return the same result (or raise the same
  exception) in any two runs on the same input, whatever the entropy of each run. The
  seed 0 stands for no seed.
\<close>

theorem seeded_generators_deterministic:
  assumes "seed \<noteq> 0"
  shows "seed_argument seed = Some seed
       \<and> gini_33 uniform seed entropy1 a = gini_33 uniform seed entropy2 a
       \<and> gini_66 uniform seed entropy1 a = gini_66 uniform seed entropy2 a"
  using assms by (simp add: seed_argument_def gini_33_def gini_66_def default_rng_def)

theorem seeded_generators_deterministic_witness:
  "seed_argument 7 = Some 7
   \<and> gini_33 toy_uniform 7 1 [3, 5] = gini_33 toy_uniform 7 2 [3, 5]
   \<and> gini_66 toy_uniform 7 1 [3, 5] = gini_66 toy_uniform 7 2 [3, 5]
   \<and> map_sum id pdf (gini_33 toy_uniform 7 1 [3, 5]) = Inr (Some [1, 8 / 9])"
proof -
  have "map_sum id pdf (gini_33 toy_uniform 7 1 [3, 5]) = Inr (Some [1, 8 / 9])"
    by (simp add: seed_argument_def gini_33_def default_rng_def toy_uniform_def arr_div_def
      np_max_def normed_def np_cumsum_def Let_def upt_rec)
  with seeded_generators_deterministic [of 7 toy_uniform 1 "[3, 5]" 2] show ?thesis by simp
qed


end
